theory Spec2Isabelle
  imports Main
begin

section \<open>Configuration constants (main.go, lines 17-30)\<close>

text \<open>
  Instants and durations are integers counting nanoseconds, the unit of Go's
  \<open>time.Duration\<close>. The instant a call reads from \<open>time.Now()\<close> is an argument of the
  model.
\<close>

type_synonym time = int

definition second :: int where
  "second = 1000000000"

definition millisecond :: int where
  "millisecond = 1000000"

definition maxConnections :: nat where
  "maxConnections = 100"

definition maxInputSize :: nat where
  "maxInputSize = 1024"

definition connTimeout :: int where
  "connTimeout = 1 * (60 * second)"

definition readTimeout :: int where
  "readTimeout = 30 * second"

definition rateLimitWindow :: int where
  "rateLimitWindow = 10 * second"

definition rateLimitMax :: nat where
  "rateLimitMax = 5"

section \<open>The rate limiter (main.go, lines 38-100)\<close>

text \<open>
  \<open>rateLimiter.connections\<close> maps an address to its \<open>ipRateInfo\<close>, whose only data is
  the slice of timestamps. \<open>checkRateLimit\<close> below is one call that nothing interrupts, on
  a limiter in which every key holds its record by value: \<open>LoadOrStore\<close> with a fresh
  \<open>ipRateInfo\<close> reads an absent key as the empty slice and leaves the key present
  afterwards.
\<close>

type_synonym rateLimiter = "string \<rightharpoonup> time list"

text \<open>\<open>t.After(u)\<close> of Go's \<open>time\<close> package: \<open>t\<close> is strictly later than \<open>u\<close>.\<close>

definition After :: "time \<Rightarrow> time \<Rightarrow> bool" where
  "After t u = (u < t)"

definition checkRateLimit :: "time \<Rightarrow> string \<Rightarrow> rateLimiter \<Rightarrow> bool \<times> rateLimiter" where
  "checkRateLimit now ip r =
     (let windowStart = now - rateLimitWindow;
          info = (case r ip of None \<Rightarrow> [] | Some ts \<Rightarrow> ts);
          valid = filter (\<lambda>t. After t windowStart) info
      in if rateLimitMax \<le> length valid then (False, r(ip \<mapsto> valid))
         else (True, r(ip \<mapsto> valid @ [now])))"

text \<open>The loop of \<open>cleanup\<close> that computes \<open>allOld\<close>, leaving at the first recent timestamp.\<close>

fun allOld :: "time \<Rightarrow> time list \<Rightarrow> bool" where
  "allOld cutoff [] = True"
| "allOld cutoff (t # ts) = (if After t cutoff then False else allOld cutoff ts)"

text \<open>The timestamps a limiter of this kind holds for a key.\<close>

definition timestamps :: "rateLimiter \<Rightarrow> string \<Rightarrow> time list" where
  "timestamps r ip = (case r ip of None \<Rightarrow> [] | Some ts \<Rightarrow> ts)"

subsection \<open>The limiter as the goroutines share it\<close>

text \<open>
  The accept loop and the cleanup goroutine work on the same records through pointers, and
  the mutex of a record protects its timestamps only. So the model keeps a store: the map
  \<open>connections\<close> from keys to addresses of records, and the timestamps \<open>infos\<close> at every
  address, with \<open>fresh\<close> the next address that \<open>&ipRateInfo{}\<close> yields. Beside the store
  stands what each goroutine holds locally: the accept loop, between lines 56 and 58, the
  key, the instant of line 52 and the record that \<open>LoadOrStore\<close> returned; the cleanup
  goroutine the cutoff of line 82, the keys that \<open>Range\<close> has passed to the function in
  this sweep, and, between lines 94 and 96, a key it has found all old.
\<close>

type_synonym ref = nat

record limiterState =
  connections :: "string \<rightharpoonup> ref"
  infos :: "ref \<Rightarrow> time list"
  fresh :: ref
  loaded :: "(string \<times> time \<times> ref) option"
  cutoff :: "time option"
  visited :: "string list"
  doomed :: "string option"

definition startLimiter :: limiterState where
  "startLimiter =
     \<lparr>connections = Map.empty, infos = (\<lambda>p. []), fresh = 0, loaded = None, cutoff = None,
      visited = [], doomed = None\<rparr>"

text \<open>Lines 55-56: the record of the key, stored first when the key has none.\<close>

definition LoadOrStore :: "string \<Rightarrow> limiterState \<Rightarrow> ref \<times> limiterState" where
  "LoadOrStore ip l =
     (case connections l ip of
        Some p \<Rightarrow> (p, l)
      | None \<Rightarrow>
          (fresh l,
           l\<lparr>connections := (connections l)(ip \<mapsto> fresh l),
             infos := (infos l)(fresh l := []), fresh := fresh l + 1\<rparr>))"

text \<open>Lines 58-77, under the mutex of the record: the verdict and the new timestamps.\<close>

definition lockedSection :: "time \<Rightarrow> time list \<Rightarrow> bool \<times> time list" where
  "lockedSection now ts =
     (let windowStart = now - rateLimitWindow;
          valid = filter (\<lambda>t. After t windowStart) ts
      in if rateLimitMax \<le> length valid then (False, valid) else (True, valid @ [now]))"

text \<open>
  The steps of the two goroutines on the limiter. \<open>Load ip now\<close>: lines 52-56 of a check.
  \<open>Locked\<close>: lines 58-77 of the check that has loaded, which gives its verdict. \<open>Sweep now\<close>:
  line 82, a sweep begins. \<open>Visit key\<close>: \<open>Range\<close> passes a key and its record to the
  function, which decides \<open>allOld\<close> under the mutex of the record (lines 84-94). \<open>Delete\<close>:
  lines 95-97, the key found all old is deleted. The mutex makes \<open>Locked\<close> and \<open>Visit\<close> single
  steps; nothing keeps a \<open>Visit\<close> or a \<open>Delete\<close> from falling between the \<open>Load\<close> and the
  \<open>Locked\<close> of a check, or a check from falling between a \<open>Visit\<close> and its \<open>Delete\<close>. A step
  that its goroutine cannot take in a state gives \<open>None\<close>.
\<close>

datatype limiterCall = Load string time | Locked | Sweep time | Visit string | Delete

fun limiterStep ::
  "limiterCall \<Rightarrow> limiterState \<Rightarrow> ((string \<times> bool) option \<times> limiterState) option" where
  "limiterStep (Load ip now) l =
     (if loaded l = None
      then case LoadOrStore ip l of (p, l') \<Rightarrow> Some (None, l'\<lparr>loaded := Some (ip, now, p)\<rparr>)
      else None)"
| "limiterStep Locked l =
     (case loaded l of
        None \<Rightarrow> None
      | Some (ip, now, p) \<Rightarrow>
          (case lockedSection now (infos l p) of
             (ok, ts) \<Rightarrow> Some (Some (ip, ok), l\<lparr>infos := (infos l)(p := ts), loaded := None\<rparr>)))"
| "limiterStep (Sweep now) l =
     (if doomed l = None
      then Some (None, l\<lparr>cutoff := Some (now - rateLimitWindow * 2), visited := []\<rparr>)
      else None)"
| "limiterStep (Visit key) l =
     (case (cutoff l, connections l key) of
        (Some c, Some p) \<Rightarrow>
          if doomed l = None \<and> key \<notin> set (visited l)
          then Some (None, l\<lparr>visited := key # visited l,
                              doomed := (if allOld c (infos l p) then Some key else None)\<rparr>)
          else None
      | _ \<Rightarrow> None)"
| "limiterStep Delete l =
     (case doomed l of
        None \<Rightarrow> None
      | Some key \<Rightarrow> Some (None, l\<lparr>connections := (connections l)(key := None), doomed := None\<rparr>))"

text \<open>
  A schedule of the limiter is a list of such steps; \<open>verdicts\<close> runs it and lists the
  verdict of every check with its key. A step that cannot be taken where it stands is
  passed over.
\<close>

fun verdicts :: "limiterState \<Rightarrow> limiterCall list \<Rightarrow> (string \<times> bool) list" where
  "verdicts l [] = []"
| "verdicts l (c # cs) =
     (case limiterStep c l of
        None \<Rightarrow> verdicts l cs
      | Some (None, l') \<Rightarrow> verdicts l' cs
      | Some (Some v, l') \<Rightarrow> v # verdicts l' cs)"

text \<open>The timestamps the map holds for a key.\<close>

definition recorded :: "limiterState \<Rightarrow> string \<Rightarrow> time list" where
  "recorded l ip = (case connections l ip of None \<Rightarrow> [] | Some p \<Rightarrow> infos l p)"

section \<open>Messages and the contact table (main.go, lines 111-136)\<close>

text \<open>
  Go strings are byte strings; a character outside ASCII is written below as the bytes of
  its UTF-8 encoding.
\<close>

definition newline :: char where
  "newline = CHR 0x0A"

definition apostrophe :: string where
  "apostrophe = [CHR 0x27]"

definition backslash :: string where
  "backslash = [CHR 0x5C]"

text \<open>U+2501, the heavy horizontal bar of the banner; U+2192, the arrow; U+1F44B, the waving hand.\<close>

definition heavyBar :: string where
  "heavyBar = [CHR 0xE2, CHR 0x94, CHR 0x81]"

definition arrow :: string where
  "arrow = [CHR 0xE2, CHR 0x86, CHR 0x92]"

definition wavingHand :: string where
  "wavingHand = [CHR 0xF0, CHR 0x9F, CHR 0x91, CHR 0x8B]"

record contact =
  Num :: int
  Name :: string
  URL :: string

definition contacts :: "contact list" where
  "contacts =
     [\<lparr>Num = 1, Name = ''Twitter/X'', URL = ''x.com/hitto_kun''\<rparr>,
      \<lparr>Num = 2, Name = ''GitHub'', URL = ''github.com/hitto-hub''\<rparr>,
      \<lparr>Num = 3, Name = ''Zenn'', URL = ''zenn.dev/hitto''\<rparr>,
      \<lparr>Num = 4, Name = ''Qiita'', URL = ''qiita.com/hitto''\<rparr>,
      \<lparr>Num = 5, Name = ''Blog'', URL = ''hitto-kun.hatenablog.com''\<rparr>]"

definition banner :: string where
  "banner =
     [newline] @
     '' _     _ _   _'' @ [newline] @
     ''| |__ (_) |_| |_ ___'' @ [newline] @
     ''| '' @ apostrophe @ ''_ '' @ backslash @ ''| | __| __/ _ '' @ backslash @ [newline] @
     ''| | | | | |_| || (_) |'' @ [newline] @
     ''|_| |_|_|'' @ backslash @ ''__|'' @ backslash @ ''__'' @ backslash @ ''___/'' @ [newline] @
     [newline] @
     concat (replicate 38 heavyBar) @ [newline] @
     ''  Welcome to hitto'' @ apostrophe @ ''s contact server'' @ [newline] @
     concat (replicate 38 heavyBar) @ [newline] @
     [newline] @
     ''  Available endpoints:'' @ [newline] @
     [newline]"

definition tooManyMsg :: string where
  "tooManyMsg = ''Too many connections. Please wait and try again.'' @ [newline]"

definition busyMsg :: string where
  "busyMsg = ''Server is busy. Please try again later.'' @ [newline]"

definition ruleMsg :: string where
  "ruleMsg = [newline] @ concat (replicate 38 heavyBar) @ [newline, newline]"

definition promptMsg :: string where
  "promptMsg = ''> Select [1-5] or '' @ apostrophe @ ''q'' @ apostrophe @ '' to quit: ''"

definition tooLargeMsg :: string where
  "tooLargeMsg = [newline] @ ''Input too large. Connection closed.'' @ [newline]"

definition farewellMsg :: string where
  "farewellMsg = [newline] @ ''Connection closed. See you! '' @ wavingHand @ [newline]"

definition invalidMsg :: string where
  "invalidMsg = ''Invalid input. Select [1-5] or '' @ apostrophe @ ''q'' @ apostrophe @ '' to quit: ''"

text \<open>The verb \<open>%d\<close> of \<open>fmt\<close> on an \<open>int\<close>: decimal digits, with a minus sign below zero.\<close>

definition digitChar :: "nat \<Rightarrow> char" where
  "digitChar d = char_of ((of_char (CHR ''0'') :: nat) + d)"

fun decimal :: "nat \<Rightarrow> string" where
  "decimal n = (if n < 10 then [digitChar n] else decimal (n div 10) @ [digitChar (n mod 10)])"

definition formatInt :: "int \<Rightarrow> string" where
  "formatInt i = (if i < 0 then ''-'' @ decimal (nat (- i)) else decimal (nat i))"

text \<open>
  The verb \<open>%-10s\<close>: the string, then spaces up to ten characters. The width counts
  characters; the names of the table are ASCII, where that is the number of bytes.
\<close>

definition padRight :: "nat \<Rightarrow> string \<Rightarrow> string" where
  "padRight w str = str @ replicate (w - length str) (CHR '' '')"

text \<open>The line of the menu for one contact, and the answer to a selection.\<close>

definition menuLine :: "contact \<Rightarrow> string" where
  "menuLine c =
     ''  ['' @ formatInt (Num c) @ ''] '' @ padRight 10 (Name c) @ '' '' @ arrow @ '' '' @
     URL c @ [newline]"

definition openingMsg :: "contact \<Rightarrow> string" where
  "openingMsg c =
     [newline] @ arrow @ '' Opening '' @ Name c @ '': https://'' @ URL c @ [newline, newline]"

section \<open>The integer parse of the session: \<open>fmt.Sscanf(input, "%d", &num)\<close>\<close>

text \<open>
  The scan of \<open>fmt\<close> for the format \<open>%d\<close>: it skips leading white space, fails on a
  newline there and at the end of the input, accepts one optional sign, requires one
  decimal digit and takes all that follow, and converts sign and digits with
  \<open>strconv.ParseInt(tok, 10, 64)\<close>, which fails outside the 64-bit range. Nothing looks
  at what follows the digits. \<open>None\<close> stands for a non-nil \<open>err\<close>.

  \<open>spaceRunes\<close> holds the UTF-8 encodings of the code points of the table \<open>space\<close> of
  \<open>fmt/scan.go\<close>, the newline apart: U+0009, U+000B to U+000D, U+0020, U+0085, U+00A0,
  U+1680, U+2000 to U+200A, U+2028, U+2029, U+202F, U+205F and U+3000.
\<close>

definition spaceRunes :: "string list" where
  "spaceRunes =
     [[CHR 0x09], [CHR 0x0B], [CHR 0x0C], [CHR 0x0D], [CHR 0x20],
      [CHR 0xC2, CHR 0x85], [CHR 0xC2, CHR 0xA0],
      [CHR 0xE1, CHR 0x9A, CHR 0x80],
      [CHR 0xE2, CHR 0x80, CHR 0x80], [CHR 0xE2, CHR 0x80, CHR 0x81],
      [CHR 0xE2, CHR 0x80, CHR 0x82], [CHR 0xE2, CHR 0x80, CHR 0x83],
      [CHR 0xE2, CHR 0x80, CHR 0x84], [CHR 0xE2, CHR 0x80, CHR 0x85],
      [CHR 0xE2, CHR 0x80, CHR 0x86], [CHR 0xE2, CHR 0x80, CHR 0x87],
      [CHR 0xE2, CHR 0x80, CHR 0x88], [CHR 0xE2, CHR 0x80, CHR 0x89],
      [CHR 0xE2, CHR 0x80, CHR 0x8A],
      [CHR 0xE2, CHR 0x80, CHR 0xA8], [CHR 0xE2, CHR 0x80, CHR 0xA9],
      [CHR 0xE2, CHR 0x80, CHR 0xAF],
      [CHR 0xE2, CHR 0x81, CHR 0x9F],
      [CHR 0xE3, CHR 0x80, CHR 0x80]]"

definition hasPrefix :: "string \<Rightarrow> string \<Rightarrow> bool" where
  "hasPrefix str p = (take (length p) str = p)"

text \<open>The width in bytes of the white-space character the string starts with, 0 without one.\<close>

definition spaceWidth :: "string \<Rightarrow> nat" where
  "spaceWidth str = (case find (hasPrefix str) spaceRunes of None \<Rightarrow> 0 | Some p \<Rightarrow> length p)"

function SkipSpace :: "string \<Rightarrow> string option" where
  "SkipSpace str =
     (if str = [] then Some []
      else if hd str = newline then None
      else if spaceWidth str = 0 then Some str
      else SkipSpace (drop (spaceWidth str) str))"
  by pat_completeness auto
termination
  by (relation "measure length") auto

declare SkipSpace.simps [simp del]

definition isDigit :: "char \<Rightarrow> bool" where
  "isDigit c = ((of_char (CHR ''0'') :: nat) \<le> of_char c \<and> (of_char c :: nat) \<le> of_char (CHR ''9''))"

definition digitVal :: "char \<Rightarrow> int" where
  "digitVal c = of_char c - of_char (CHR ''0'')"

definition decimalValue :: "string \<Rightarrow> int" where
  "decimalValue ds = foldl (\<lambda>n c. 10 * n + digitVal c) 0 ds"

definition ParseInt :: "bool \<Rightarrow> string \<Rightarrow> int option" where
  "ParseInt neg ds =
     (let v = decimalValue ds
      in if neg then (if v \<le> 2 ^ 63 then Some (- v) else None)
         else (if v < 2 ^ 63 then Some v else None))"

definition Sscanf_d :: "string \<Rightarrow> int option" where
  "Sscanf_d input =
     (case SkipSpace input of
        None \<Rightarrow> None
      | Some str \<Rightarrow>
          if str = [] then None
          else let signed = (hd str = CHR ''+'' \<or> hd str = CHR ''-'');
                   neg = (hd str = CHR ''-'');
                   body = (if signed then tl str else str);
                   ds = takeWhile isDigit body
               in if ds = [] then None else ParseInt neg ds)"

section \<open>What a connection delivers, and when\<close>

text \<open>
  The reading side of a \<open>net.Conn\<close> is the list of what arrives on it, in order, each with
  the instant of its arrival, counted from the start of the handler: bytes, or a failure
  (the peer closed, the connection broke). The connection keeps the instant \<open>elapsed\<close> its
  handler has reached, the handler being taken to spend time only when a \<open>Read\<close> waits, and
  whether it has broken.

  A \<open>Read\<close> under a read deadline returns what has arrived, waiting for it if need be, and
  fails with a timeout if nothing arrives before the deadline; so it does on a list that
  is used up, on which nothing arrives any more. \<open>Read\<close> into a slice of \<open>space\<close> bytes
  returns at most that many and leaves the others for the next call.
\<close>

datatype netErr = EOF | Timeout | Reset

datatype recv = Data time string | Fail time netErr

record netConn =
  elapsed :: time
  broken :: bool
  incoming :: "recv list"

fun arrival :: "recv \<Rightarrow> time" where
  "arrival (Data t bs) = t"
| "arrival (Fail t e) = t"

definition connRead :: "time \<Rightarrow> nat \<Rightarrow> netConn \<Rightarrow> string \<times> netErr option \<times> netConn" where
  "connRead deadline space c =
     (case incoming c of
        [] \<Rightarrow> ([], Some Timeout, c\<lparr>elapsed := max (elapsed c) deadline\<rparr>)
      | r # rest \<Rightarrow>
          if deadline \<le> max (elapsed c) (arrival r)
          then ([], Some Timeout, c\<lparr>elapsed := max (elapsed c) deadline\<rparr>)
          else case r of
                 Fail t e \<Rightarrow>
                   ([], Some e,
                    c\<lparr>elapsed := max (elapsed c) t, broken := (broken c \<or> e = Reset),
                      incoming := rest\<rparr>)
               | Data t bs \<Rightarrow>
                   if length bs \<le> space
                   then (bs, None, c\<lparr>elapsed := max (elapsed c) t, incoming := rest\<rparr>)
                   else (take space bs, None,
                         c\<lparr>elapsed := max (elapsed c) t,
                           incoming := Data t (drop space bs) # rest\<rparr>))"

fun connSize :: "recv list \<Rightarrow> nat" where
  "connSize [] = 0"
| "connSize (Fail t e # rest) = Suc (connSize rest)"
| "connSize (Data t bs # rest) = Suc (length bs + connSize rest)"

text \<open>
  \<open>conn.SetDeadline(time.Now().Add(connTimeout))\<close> (line 234) sets the deadline of the
  reads and of the writes; \<open>conn.SetReadDeadline\<close> (line 253) later moves that of the reads
  only. So a write succeeds as long as \<open>connTimeout\<close> has not passed since the start and
  the connection has not broken, and fails afterwards.
\<close>

definition writable :: "netConn \<Rightarrow> bool" where
  "writable c = (elapsed c < connTimeout \<and> \<not> broken c)"

section \<open>\<open>bufio.Scanner\<close> with the split function \<open>ScanLines\<close>\<close>

text \<open>
  \<open>scanner.Buffer(make([]byte, maxInputSize), maxInputSize)\<close> gives the scanner a buffer
  of \<open>maxInputSize\<close> bytes and the same maximal token size, so the buffer never grows.
  The state keeps the unread part \<open>buf[start:end]\<close> of the buffer, its offset \<open>start\<close>,
  and the sticky error \<open>err\<close>.
\<close>

datatype scanErr = ErrTooLong | ErrNoProgress | ReadErr netErr

record scanner =
  unread :: string
  start :: nat
  err :: "scanErr option"

definition newScanner :: scanner where
  "newScanner = \<lparr>unread = [], start = 0, err = None\<rparr>"

definition maxConsecutiveEmptyReads :: nat where
  "maxConsecutiveEmptyReads = 100"

text \<open>\<open>bytes.IndexByte\<close>, with \<open>None\<close> for \<open>-1\<close>.\<close>

fun IndexByte :: "string \<Rightarrow> char \<Rightarrow> nat option" where
  "IndexByte [] c = None"
| "IndexByte (b # bs) c = (if b = c then Some 0 else map_option Suc (IndexByte bs c))"

definition dropCR :: "string \<Rightarrow> string" where
  "dropCR data = (if data \<noteq> [] \<and> last data = CHR 0x0D then butlast data else data)"

text \<open>\<open>bufio.ScanLines\<close>: the bytes to advance by and the token, \<open>None\<close> for a nil token.\<close>

definition ScanLines :: "string \<Rightarrow> bool \<Rightarrow> nat \<times> string option" where
  "ScanLines data atEOF =
     (if atEOF \<and> data = [] then (0, None)
      else case IndexByte data newline of
             Some i \<Rightarrow> (i + 1, Some (dropCR (take i data)))
           | None \<Rightarrow> if atEOF then (length data, Some (dropCR data)) else (0, None))"

text \<open>
  The inner loop of \<open>Scan\<close> that reads into the free end of the buffer: it returns the
  bytes read, the error to set, and the connection afterwards. A read of no bytes
  without an error is tried again, up to \<open>maxConsecutiveEmptyReads\<close> times.
\<close>

function readLoop ::
  "time \<Rightarrow> nat \<Rightarrow> nat \<Rightarrow> netConn \<Rightarrow> string \<times> scanErr option \<times> netConn" where
  "readLoop deadline loop space c =
     (case connRead deadline space c of
        (bs, Some e, c') \<Rightarrow> (bs, Some (ReadErr e), c')
      | (bs, None, c') \<Rightarrow>
          if bs \<noteq> [] then (bs, None, c')
          else if maxConsecutiveEmptyReads < loop + 1 then (bs, Some ErrNoProgress, c')
          else readLoop deadline (loop + 1) space c')"
  by pat_completeness auto
termination
  by (relation "measure (\<lambda>(deadline, loop, space, c). Suc maxConsecutiveEmptyReads - loop)") auto

declare readLoop.simps [simp del]

lemma connRead_size:
  "connRead deadline space c = (bs, e, c') \<Longrightarrow>
     length bs + connSize (incoming c') \<le> connSize (incoming c) \<and>
     (bs \<noteq> [] \<longrightarrow> length bs + connSize (incoming c') < length bs + connSize (incoming c))"
  by (auto simp: connRead_def split: list.splits if_splits recv.splits)

lemma readLoop_size:
  "readLoop deadline loop space c = (bs, e, c') \<Longrightarrow>
     length bs + connSize (incoming c') \<le> connSize (incoming c) \<and>
     (e = None \<longrightarrow> connSize (incoming c') < connSize (incoming c))"
proof (induction deadline loop space c rule: readLoop.induct)
  case (1 deadline loop space c)
  obtain bs0 e0 c0 where r: "connRead deadline space c = (bs0, e0, c0)"
    by (cases "connRead deadline space c") auto
  note sz = connRead_size [OF r]
  show ?case
  proof (cases e0)
    case (Some x)
    with "1.prems" r sz show ?thesis
      by (auto simp add: readLoop.simps [of deadline loop space c])
  next
    case None
    show ?thesis
    proof (cases "bs0 \<noteq> []")
      case True
      with "1.prems" r sz None show ?thesis
        by (auto simp add: readLoop.simps [of deadline loop space c])
    next
      case False
      show ?thesis
      proof (cases "maxConsecutiveEmptyReads < loop + 1")
        case True
        with "1.prems" r sz None False show ?thesis
          by (auto simp add: readLoop.simps [of deadline loop space c])
      next
        case stay: False
        with "1.prems" r None False
        have again: "readLoop deadline (loop + 1) space c0 = (bs, e, c')"
          by (simp add: readLoop.simps [of deadline loop space c])
        have "length bs + connSize (incoming c') \<le> connSize (incoming c0) \<and>
              (e = None \<longrightarrow> connSize (incoming c') < connSize (incoming c0))"
          using "1.IH" [of bs0 "(e0, c0)" e0 c0] r None False stay again by simp
        with sz False show ?thesis by auto
      qed
    qed
  qed
qed

text \<open>
  One round of the loop of \<open>Scan\<close> first asks the split function for a token, when the
  buffer holds unread bytes or an error is set, and advances past what the function used.
\<close>

definition trySplit :: "scanner \<Rightarrow> string option \<times> scanner" where
  "trySplit s =
     (if unread s \<noteq> [] \<or> err s \<noteq> None
      then case ScanLines (unread s) (err s \<noteq> None) of
             (advance, token) \<Rightarrow>
               (token, s\<lparr>unread := drop advance (unread s), start := start s + advance\<rparr>)
      else (None, s))"

text \<open>Before reading, the unread bytes move to the front when space is needed or much is free.\<close>

definition shift :: "scanner \<Rightarrow> scanner" where
  "shift s =
     (if 0 < start s \<and>
         (start s + length (unread s) = maxInputSize \<or> maxInputSize div 2 < start s)
      then s\<lparr>start := 0\<rparr> else s)"

text \<open>A token always uses at least one unread byte; without a token nothing is used.\<close>

lemma IndexByte_bound: "IndexByte data c = Some i \<Longrightarrow> i < length data"
  by (induction data arbitrary: i) (auto split: if_splits)

lemma ScanLines_token:
  "ScanLines data atEOF = (advance, Some token) \<Longrightarrow> 0 < advance \<and> advance \<le> length data"
  by (auto simp: ScanLines_def split: if_splits option.splits dest: IndexByte_bound)

lemma ScanLines_none: "ScanLines data atEOF = (advance, None) \<Longrightarrow> advance = 0"
  by (auto simp: ScanLines_def split: if_splits option.splits)

lemma trySplit_token:
  "trySplit s = (Some token, s1) \<Longrightarrow> length (unread s1) < length (unread s) \<and> err s1 = err s"
  by (auto simp: trySplit_def split: if_splits prod.splits dest!: ScanLines_token)

lemma trySplit_none: "trySplit s = (None, s1) \<Longrightarrow> s1 = s"
  by (auto simp: trySplit_def split: if_splits prod.splits dest!: ScanLines_none)

text \<open>
  \<open>scanner.Scan()\<close> under the read deadline in force: the token (\<open>None\<close> when it returns
  false), the scanner and the connection afterwards. A full buffer without a token is
  \<open>ErrTooLong\<close>, since the buffer already has the maximal size.
\<close>

function Scan :: "time \<Rightarrow> scanner \<Rightarrow> netConn \<Rightarrow> string option \<times> scanner \<times> netConn" where
  "Scan deadline s c =
     (case trySplit s of
        (Some token, s1) \<Rightarrow> (Some token, s1, c)
      | (None, s1) \<Rightarrow>
          if err s1 \<noteq> None then (None, s1\<lparr>unread := [], start := 0\<rparr>, c)
          else
            let s2 = shift s1
            in if start s2 + length (unread s2) = maxInputSize
               then (None, s2\<lparr>err := Some ErrTooLong\<rparr>, c)
               else case readLoop deadline 0 (maxInputSize - (start s2 + length (unread s2))) c of
                      (bs, e, c') \<Rightarrow> Scan deadline (s2\<lparr>unread := unread s2 @ bs, err := e\<rparr>) c')"
  by pat_completeness auto
termination
  apply (relation "measure (\<lambda>(deadline, s, c).
           2 * connSize (incoming c) + (if err s = None then 1 else 0))")
   apply simp
  apply (auto dest!: readLoop_size [OF sym] trySplit_none [OF sym])
  done

declare Scan.simps [simp del]

text \<open>Every token leaves less to scan, which bounds the loop of the session.\<close>

lemma shift_unread: "unread (shift s) = unread s" "err (shift s) = err s"
  by (simp_all add: shift_def)

lemma Scan_progress:
  "Scan deadline s c = (Some token, s', c') \<Longrightarrow>
     length (unread s') + connSize (incoming c') < length (unread s) + connSize (incoming c)"
proof (induction deadline s c rule: Scan.induct)
  case (1 deadline s c)
  obtain tok s1 where sp: "trySplit s = (tok, s1)" by (cases "trySplit s") auto
  show ?case
  proof (cases tok)
    case (Some t)
    with "1.prems" sp have "s' = s1" "c' = c" by (simp_all add: Scan.simps [of deadline s c])
    with trySplit_token sp Some show ?thesis by auto
  next
    case None
    with sp have s1: "s1 = s" by (simp add: trySplit_none)
    let ?s2 = "shift s"
    let ?space = "maxInputSize - (start ?s2 + length (unread ?s2))"
    obtain bs e c0 where rl: "readLoop deadline 0 ?space c = (bs, e, c0)"
      by (cases "readLoop deadline 0 ?space c") auto
    from "1.prems" sp None s1
    have ne: "err s = None" "start ?s2 + length (unread ?s2) \<noteq> maxInputSize"
      by (auto simp add: Scan.simps [of deadline s c] Let_def split: if_splits)
    with "1.prems" sp None s1 rl
    have rec: "Scan deadline (?s2\<lparr>unread := unread ?s2 @ bs, err := e\<rparr>) c0 = (Some token, s', c')"
      by (simp add: Scan.simps [of deadline s c] Let_def)
    have "length (unread s') + connSize (incoming c')
            < length (unread (?s2\<lparr>unread := unread ?s2 @ bs, err := e\<rparr>)) + connSize (incoming c0)"
      using "1.IH" [of tok s1 ?s2 bs "(e, c0)" e c0]
        sp None s1 ne rl rec by simp
    with readLoop_size [OF rl] show ?thesis by (simp add: shift_unread)
  qed
qed


section \<open>The session (main.go, lines 225-284)\<close>

text \<open>\<open>scanner.Err()\<close>, which hides \<open>io.EOF\<close>.\<close>

definition Err :: "scanner \<Rightarrow> scanErr option" where
  "Err s = (if err s = Some (ReadErr EOF) then None else err s)"

text \<open>
  What a handler does to the outside, in order: the calls of \<open>fmt.Fprint\<close> on its
  connection, \<open>Write\<close> for one that succeeds and \<open>Failed\<close> for one that returns an error and
  delivers nothing; closing the connection; the receive from \<open>connSemaphore\<close> that frees
  the slot; and the atomic addition to \<open>activeConns\<close>. The source ignores the result of
  every \<open>Fprint\<close> and goes on.
\<close>

datatype effect = Write string | Failed string | Close | Recv | AddActive int

definition send :: "netConn \<Rightarrow> string \<Rightarrow> effect" where
  "send c m = (if writable c then Write m else Failed m)"

text \<open>The answer to a line that is not a quit command (lines 272-282).\<close>

definition respond :: "string \<Rightarrow> string list" where
  "respond input =
     (case Sscanf_d input of
        Some num \<Rightarrow>
          if 1 \<le> num \<and> num \<le> int (length contacts)
          then [openingMsg (contacts ! nat (num - 1)), promptMsg]
          else [invalidMsg]
      | None \<Rightarrow> [invalidMsg])"

text \<open>
  The loop of the session (lines 251-283): its calls of \<open>Fprint\<close>, in order. Every round
  sets the read deadline \<open>readTimeout\<close> after the instant it starts at.
\<close>

function sessionLoop :: "scanner \<Rightarrow> netConn \<Rightarrow> effect list" where
  "sessionLoop s c =
     (case Scan (elapsed c + readTimeout) s c of
        (None, s', c') \<Rightarrow> (if Err s' = Some ErrTooLong then [send c' tooLargeMsg] else [])
      | (Some input, s', c') \<Rightarrow>
          if input = ''q'' \<or> input = ''quit'' \<or> input = ''exit'' then [send c' farewellMsg]
          else map (send c') (respond input) @ sessionLoop s' c')"
  by pat_completeness auto
termination
  by (relation "measure (\<lambda>(s, c). length (unread s) + connSize (incoming c))")
     (auto dest: Scan_progress [OF sym])

declare sessionLoop.simps [simp del]

text \<open>
  \<open>handleConnection\<close>: the banner, the menu and the prompt, then the loop; the deferred
  function runs on every return. The argument is what arrives on the connection.
\<close>

definition greeting :: "string list" where
  "greeting = [banner] @ map menuLine contacts @ [ruleMsg, promptMsg]"

definition accepted :: "recv list \<Rightarrow> netConn" where
  "accepted arriving = \<lparr>elapsed = 0, broken = False, incoming = arriving\<rparr>"

definition handleConnection :: "recv list \<Rightarrow> effect list" where
  "handleConnection arriving =
     map (send (accepted arriving)) greeting @ sessionLoop newScanner (accepted arriving) @
     [Close, Recv, AddActive (- 1)]"


section \<open>The accept loop, the handlers and the shutdown (main.go, lines 138-231)\<close>

text \<open>
  The goroutines share the limiter, the channel \<open>connSemaphore\<close> (of which only the number
  of buffered elements matters), the counter \<open>activeConns\<close>, the listener and the context.
  The state adds where the accept loop stands, what every handler started with \<open>go\<close> has
  still to do, what the loop has written to the connections it turned away, and how often
  the drain loop has slept.
\<close>

datatype pc = Accepting | Checking | Selecting | Counting | Spawning | Draining nat | Exited

record server =
  limiter :: limiterState
  connSemaphore :: nat
  activeConns :: int
  listening :: bool
  cancelled :: bool
  mainPc :: pc
  handlers :: "effect list list"
  replies :: "effect list list"
  slept :: nat

definition initial :: server where
  "initial =
     \<lparr>limiter = startLimiter, connSemaphore = 0, activeConns = 0, listening = True,
      cancelled = False, mainPc = Accepting, handlers = [], replies = [], slept = 0\<rparr>"

text \<open>
  One step of one goroutine. The accept loop: \<open>Accept\<close> returns a connection and
  \<open>checkRateLimit\<close> reads the clock and loads the record of the address (lines 178,
  199-200, 52-56); the part of \<open>checkRateLimit\<close> under the mutex and the answer to a refused
  attempt (lines 58-77, 201-207); or \<open>Accept\<close> fails (lines 179-197); the \<open>select\<close> on the
  semaphore (lines 210-221); the atomic increment (line 213); the \<open>go\<close> statement (line
  215), which carries what will arrive on the new connection; one round of the drain loop,
  which sleeps 100 ms unless it leaves (lines 185-192). A handler: its next effect. The
  signal goroutine: \<open>listener.Close()\<close>, then \<open>cancel()\<close> (lines 173-174). The cleanup
  goroutine: one of its steps on the limiter (lines 82-97).
\<close>

datatype action =
    Accept string time
  | Check
  | AcceptErr
  | Select
  | Count
  | Go "recv list"
  | Poll
  | Run nat
  | CloseListener
  | Cancel
  | Cleanup limiterCall

text \<open>A receive from the empty channel blocks: the effect is not enabled.\<close>

fun exec :: "effect \<Rightarrow> server \<Rightarrow> server option" where
  "exec (Write m) s = Some s"
| "exec (Failed m) s = Some s"
| "exec Close s = Some s"
| "exec Recv s =
     (if 0 < connSemaphore s then Some (s\<lparr>connSemaphore := connSemaphore s - 1\<rparr>) else None)"
| "exec (AddActive d) s = Some (s\<lparr>activeConns := activeConns s + d\<rparr>)"

definition ofCleanup :: "limiterCall \<Rightarrow> bool" where
  "ofCleanup c = (case c of Load ip now \<Rightarrow> False | Locked \<Rightarrow> False | _ \<Rightarrow> True)"

fun step :: "action \<Rightarrow> server \<Rightarrow> server option" where
  "step (Accept ip now) s =
     (if mainPc s = Accepting \<and> listening s
      then case limiterStep (Load ip now) (limiter s) of
             None \<Rightarrow> None
           | Some (v, l) \<Rightarrow> Some (s\<lparr>limiter := l, mainPc := Checking\<rparr>)
      else None)"
| "step Check s =
     (if mainPc s = Checking
      then case limiterStep Locked (limiter s) of
             Some (Some (ip, ok), l) \<Rightarrow>
               Some (if ok then s\<lparr>limiter := l, mainPc := Selecting\<rparr>
                     else s\<lparr>limiter := l, mainPc := Accepting,
                            replies := replies s @ [[Write tooManyMsg, Close]]\<rparr>)
           | _ \<Rightarrow> None
      else None)"
| "step AcceptErr s =
     (if mainPc s = Accepting
      then Some (if cancelled s then s\<lparr>mainPc := Draining 0\<rparr> else s)
      else None)"
| "step Select s =
     (if mainPc s = Selecting
      then Some (if connSemaphore s < maxConnections
                 then s\<lparr>connSemaphore := connSemaphore s + 1, mainPc := Counting\<rparr>
                 else s\<lparr>mainPc := Accepting, replies := replies s @ [[Write busyMsg, Close]]\<rparr>)
      else None)"
| "step Count s =
     (if mainPc s = Counting
      then Some (s\<lparr>activeConns := activeConns s + 1, mainPc := Spawning\<rparr>)
      else None)"
| "step (Go arriving) s =
     (if mainPc s = Spawning
      then Some (s\<lparr>mainPc := Accepting, handlers := handlers s @ [handleConnection arriving]\<rparr>)
      else None)"
| "step Poll s =
     (case mainPc s of
        Draining i \<Rightarrow>
          Some (if i < 100 \<and> activeConns s \<noteq> 0
                then s\<lparr>mainPc := Draining (i + 1), slept := slept s + 1\<rparr>
                else s\<lparr>mainPc := Exited\<rparr>)
      | _ \<Rightarrow> None)"
| "step (Run i) s =
     (if mainPc s \<noteq> Exited \<and> i < length (handlers s)
      then case handlers s ! i of
             [] \<Rightarrow> None
           | e # es \<Rightarrow>
               (case exec e s of
                  None \<Rightarrow> None
                | Some s' \<Rightarrow> Some (s'\<lparr>handlers := (handlers s)[i := es]\<rparr>))
      else None)"
| "step CloseListener s =
     (if mainPc s \<noteq> Exited \<and> listening s then Some (s\<lparr>listening := False\<rparr>) else None)"
| "step Cancel s =
     (if mainPc s \<noteq> Exited \<and> \<not> listening s \<and> \<not> cancelled s
      then Some (s\<lparr>cancelled := True\<rparr>)
      else None)"
| "step (Cleanup call) s =
     (if mainPc s \<noteq> Exited \<and> ofCleanup call
      then case limiterStep call (limiter s) of
             None \<Rightarrow> None
           | Some (v, l) \<Rightarrow> Some (s\<lparr>limiter := l\<rparr>)
      else None)"

text \<open>A schedule is a list of actions; it runs as long as every action is enabled.\<close>

fun run :: "action list \<Rightarrow> server \<Rightarrow> server option" where
  "run [] s = Some s"
| "run (a # as) s = (case step a s of None \<Rightarrow> None | Some s' \<Rightarrow> run as s')"

text \<open>
  A session is active from its \<open>go\<close> statement until its handler has freed the slot: the
  receive is still among what the handler has to do. The accept loop holds a slot of its
  own between the \<open>select\<close> and the \<open>go\<close> statement.
\<close>

definition holdsSlot :: "effect list \<Rightarrow> bool" where
  "holdsSlot h = (Recv \<in> set h)"

definition activeSessions :: "server \<Rightarrow> nat" where
  "activeSessions s = length (filter holdsSlot (handlers s))"

definition slotOfLoop :: "server \<Rightarrow> nat" where
  "slotOfLoop s = (if mainPc s = Counting \<or> mainPc s = Spawning then 1 else 0)"

text \<open>The handlers that have not yet subtracted themselves from \<open>activeConns\<close>.\<close>

definition counted :: "effect list \<Rightarrow> bool" where
  "counted h = (AddActive (- 1) \<in> set h)"

text \<open>The calls of \<open>Fprint\<close> among the effects.\<close>

definition isWrite :: "effect \<Rightarrow> bool" where
  "isWrite e = (case e of Write m \<Rightarrow> True | Failed m \<Rightarrow> True | _ \<Rightarrow> False)"

section \<open>Notions of the statements about the limiter\<close>

text \<open>
  \<open>spacedFrom ip prev cs\<close>: in the schedule \<open>cs\<close>, every check of \<open>ip\<close> reads an instant
  more than \<open>rateLimitWindow\<close> after the one that the check of \<open>ip\<close> before it has read,
  \<open>prev\<close> being the instant of the last check of \<open>ip\<close> before \<open>cs\<close>, if there was one.
\<close>

fun spacedFrom :: "string \<Rightarrow> time option \<Rightarrow> limiterCall list \<Rightarrow> bool" where
  "spacedFrom ip prev [] = True"
| "spacedFrom ip prev (Load ip' now # cs) =
     (if ip' = ip
      then (case prev of None \<Rightarrow> True | Some t \<Rightarrow> t + rateLimitWindow < now) \<and>
           spacedFrom ip (Some now) cs
      else spacedFrom ip prev cs)"
| "spacedFrom ip prev (Locked # cs) = spacedFrom ip prev cs"
| "spacedFrom ip prev (Sweep now # cs) = spacedFrom ip prev cs"
| "spacedFrom ip prev (Visit key # cs) = spacedFrom ip prev cs"
| "spacedFrom ip prev (Delete # cs) = spacedFrom ip prev cs"

text \<open>
  What every schedule keeps true of the store: the records of the map lie below \<open>fresh\<close>,
  no two keys share a record, and the record a check has loaded belongs to no other key.
\<close>

definition separate :: "limiterState \<Rightarrow> bool" where
  "separate l =
     ((\<forall>k q. connections l k = Some q \<longrightarrow> q < fresh l) \<and>
      (\<forall>k k' q. connections l k = Some q \<and> connections l k' = Some q \<longrightarrow> k = k') \<and>
      (\<forall>k now q. loaded l = Some (k, now, q) \<longrightarrow>
         q < fresh l \<and> (\<forall>k'. connections l k' = Some q \<longrightarrow> k' = k)))"

text \<open>
  What spaced checks of \<open>ip\<close> keep true: the record of \<open>ip\<close> holds no instant after the
  last check of \<open>ip\<close>, and the record that a check of \<open>ip\<close> has loaded holds only instants
  more than a window before the instant of that check.
\<close>

definition settled :: "string \<Rightarrow> time option \<Rightarrow> limiterState \<Rightarrow> bool" where
  "settled ip prev l =
     ((\<forall>q. connections l ip = Some q \<longrightarrow>
         (case prev of None \<Rightarrow> False | Some t \<Rightarrow> \<forall>x \<in> set (infos l q). x \<le> t)) \<and>
      (\<forall>now q. loaded l = Some (ip, now, q) \<longrightarrow>
         (case prev of None \<Rightarrow> False | Some t \<Rightarrow> now \<le> t) \<and>
         (\<forall>x \<in> set (infos l q). x + rateLimitWindow < now)))"

text \<open>The instants that the checks of \<open>ip\<close> in a schedule read, in order.\<close>

fun loadsOf :: "string \<Rightarrow> limiterCall list \<Rightarrow> time list" where
  "loadsOf ip [] = []"
| "loadsOf ip (Load ip' now # cs) = (if ip' = ip then now # loadsOf ip cs else loadsOf ip cs)"
| "loadsOf ip (Locked # cs) = loadsOf ip cs"
| "loadsOf ip (Sweep now # cs) = loadsOf ip cs"
| "loadsOf ip (Visit key # cs) = loadsOf ip cs"
| "loadsOf ip (Delete # cs) = loadsOf ip cs"

section \<open>Notions of the statements about the session\<close>


section \<open>Notions of the statements about the scanner\<close>





section \<open>Notions of the statements about the server\<close>

text \<open>
  What a handler has still to do is always a rest of what \<open>handleConnection\<close> does: writes
  and then the three steps of the deferred function, or only the last two, the last one,
  or nothing.
\<close>

definition orderly :: "effect list \<Rightarrow> bool" where
  "orderly h =
     (dropWhile isWrite h = [Close, Recv, AddActive (- 1)] \<or> h = [Recv, AddActive (- 1)] \<or>
      h = [AddActive (- 1)] \<or> h = [])"

text \<open>Between the increment and the \<open>go\<close> statement the accept loop has counted a session that has no handler yet.\<close>

definition countOfLoop :: "server \<Rightarrow> int" where
  "countOfLoop s = (if mainPc s = Spawning then 1 else 0)"

text \<open>
  The invariant of the slots: the semaphore holds one element for every session that has
  not freed its slot and one for the accept loop between \<open>select\<close> and \<open>go\<close>, never more
  than its capacity; the counter counts the handlers that have not subtracted themselves.
\<close>

definition slotsBalanced :: "server \<Rightarrow> bool" where
  "slotsBalanced s =
     (list_all orderly (handlers s) \<and>
      connSemaphore s = slotOfLoop s + activeSessions s \<and>
      connSemaphore s \<le> maxConnections \<and>
      activeConns s = countOfLoop s + int (length (filter counted (handlers s))))"

text \<open>
  The invariant of the shutdown: the context is cancelled only after the listener is
  closed; the drain loop starts only after the cancellation and has slept once per
  completed round, at most 100 times.
\<close>

definition shutdownOrdered :: "server \<Rightarrow> bool" where
  "shutdownOrdered s =
     ((\<not> cancelled s \<or> \<not> listening s) \<and>
      (case mainPc s of
         Draining i \<Rightarrow> slept s = i \<and> i \<le> 100 \<and> cancelled s
       | Exited \<Rightarrow> slept s \<le> 100 \<and> cancelled s
       | _ \<Rightarrow> slept s = 0))"

text \<open>
  For the shutdown: the actions in which \<open>Accept\<close> returns a connection, and whether the
  process is gone.
\<close>

definition isAccept :: "action \<Rightarrow> bool" where
  "isAccept a = (case a of Accept ip now \<Rightarrow> True | _ \<Rightarrow> False)"

definition exited :: "server \<Rightarrow> nat" where
  "exited s = (if mainPc s = Exited then 1 else 0)"

section \<open>Inputs at which the statements are tried\<close>

text \<open>
  A schedule of the limiter in which an address is checked once and, a minute later, six
  times within six seconds, while the first sweep of the cleanup goroutine finds its old
  record and deletes the key after the first of the six checks has used that record.
\<close>

definition racingCalls :: "limiterCall list" where
  "racingCalls =
     [Load ''10.0.0.1'' 0, Locked,
      Sweep (60 * second), Visit ''10.0.0.1'',
      Load ''10.0.0.1'' (60 * second), Locked,
      Delete,
      Load ''10.0.0.1'' (61 * second), Locked, Load ''10.0.0.1'' (62 * second), Locked,
      Load ''10.0.0.1'' (63 * second), Locked, Load ''10.0.0.1'' (64 * second), Locked,
      Load ''10.0.0.1'' (65 * second), Locked]"

text \<open>
  A schedule in which the checks of the first address are more than a window apart, with
  checks of a second address, a sweep that keeps the key and a sweep that deletes it
  between the two halves of a check.
\<close>

definition spacedCalls :: "limiterCall list" where
  "spacedCalls =
     [Load ''10.0.0.1'' 0, Locked, Sweep (5 * second), Visit ''10.0.0.1'',
      Load ''10.0.0.2'' (6 * second), Locked, Load ''10.0.0.1'' (10 * second + 1), Locked,
      Load ''10.0.0.2'' (15 * second), Locked, Sweep (65 * second), Visit ''10.0.0.1'',
      Load ''10.0.0.1'' (65 * second), Delete, Locked, Load ''10.0.0.1'' (76 * second), Locked]"

definition longLine :: string where
  "longLine = replicate 1024 (CHR ''A'')"


text \<open>
  One address that connects every eleven seconds and never sends a byte: after 100 such
  sessions, none of which has been scheduled yet, the next attempt stands at the \<open>select\<close>.
\<close>

definition admitOne :: "nat \<Rightarrow> action list" where
  "admitOne i = [Accept ''10.0.0.1'' (int i * (11 * second)), Check, Select, Count, Go []]"

definition limiterAfter :: "nat \<Rightarrow> limiterState" where
  "limiterAfter n =
     (if n = 0 then startLimiter
      else startLimiter\<lparr>connections := [''10.0.0.1'' \<mapsto> 0],
                        infos := (\<lambda>p. [])(0 := [int (n - 1) * (11 * second)]),
                        fresh := 1\<rparr>)"

definition admitted :: "nat \<Rightarrow> server" where
  "admitted n =
     initial\<lparr>limiter := limiterAfter n, connSemaphore := n, activeConns := int n,
             handlers := replicate n (handleConnection [])\<rparr>"

definition fullServer :: server where
  "fullServer = (admitted 100)\<lparr>limiter := limiterAfter 101, mainPc := Selecting\<rparr>"

definition fillServer :: "action list" where
  "fillServer =
     concat (map admitOne [0..<100]) @ [Accept ''10.0.0.1'' (1100 * second), Check]"

text \<open>
  Attempts of a second address on the full server: one, and fifty seconds later six within
  six seconds, while the sweep of the cleanup goroutine finds the record of the first one
  old and deletes the key after the first of the six has been recorded.
\<close>

definition busyAttempts :: "action list" where
  "busyAttempts =
     [Accept ''10.0.0.2'' (1150 * second), Check, Select,
      Cleanup (Sweep (1200 * second)), Cleanup (Visit ''10.0.0.2''),
      Accept ''10.0.0.2'' (1200 * second), Check,
      Cleanup Delete,
      Select,
      Accept ''10.0.0.2'' (1201 * second), Check, Select,
      Accept ''10.0.0.2'' (1202 * second), Check, Select,
      Accept ''10.0.0.2'' (1203 * second), Check, Select,
      Accept ''10.0.0.2'' (1204 * second), Check, Select,
      Accept ''10.0.0.2'' (1205 * second), Check, Select]"

text \<open>The same attempts with no step of the cleanup goroutine among them.\<close>

definition calmAttempts :: "action list" where
  "calmAttempts =
     [Accept ''10.0.0.2'' (1150 * second), Check, Select,
      Accept ''10.0.0.2'' (1200 * second), Check, Select,
      Accept ''10.0.0.2'' (1201 * second), Check, Select,
      Accept ''10.0.0.2'' (1202 * second), Check, Select,
      Accept ''10.0.0.2'' (1203 * second), Check, Select,
      Accept ''10.0.0.2'' (1204 * second), Check, Select,
      Accept ''10.0.0.2'' (1205 * second), Check]"

text \<open>
  One attempt that stands at the \<open>select\<close> of an empty server; and a session whose peer
  resets the connection at once, run until only the steps of the deferred function after
  the close are left.
\<close>

definition oneWaiting :: server where
  "oneWaiting = initial\<lparr>limiter := limiterAfter 1, mainPc := Selecting\<rparr>"

definition releasing :: "action list" where
  "releasing =
     [Accept ''10.0.0.1'' 0, Check, Select, Count, Go [Fail 0 Reset]] @
     replicate (length greeting + 1) (Run 0)"

definition releasingState :: server where
  "releasingState =
     initial\<lparr>limiter := limiterAfter 1, connSemaphore := 1, activeConns := 1,
             handlers := [[Recv, AddActive (- 1)]]\<rparr>"

text \<open>
  A shutdown with one session that is never scheduled: the states of the drain loop after
  \<open>i\<close> sleeps and after its last round; and a shutdown of the idle server.
\<close>

definition draining :: "nat \<Rightarrow> server" where
  "draining i =
     (admitted 1)\<lparr>listening := False, cancelled := True, mainPc := Draining i, slept := i\<rparr>"

definition abandoned :: server where
  "abandoned = (draining 100)\<lparr>mainPc := Exited\<rparr>"

definition signalled :: "action list" where
  "signalled = concat (map admitOne [0..<1]) @ [CloseListener]"

definition idleGone :: server where
  "idleGone = initial\<lparr>listening := False, cancelled := True, mainPc := Exited\<rparr>"

section \<open>The limiter: one call\<close>

lemma timestamps_check_same:
  "timestamps (snd (checkRateLimit now ip r)) ip =
     (let valid = filter (\<lambda>t. After t (now - rateLimitWindow)) (timestamps r ip)
      in if rateLimitMax \<le> length valid then valid else valid @ [now])"
  by (simp add: checkRateLimit_def timestamps_def Let_def)

lemma fst_check:
  "fst (checkRateLimit now ip r) =
     (length (filter (\<lambda>t. After t (now - rateLimitWindow)) (timestamps r ip)) < rateLimitMax)"
  by (auto simp add: checkRateLimit_def timestamps_def Let_def)

text \<open>
  The call that nothing interrupts is the locked section applied to the timestamps of the
  key, stored back under the key.
\<close>

lemma lockedSection_check:
  "checkRateLimit now ip r =
     (fst (lockedSection now (timestamps r ip)), r(ip \<mapsto> snd (lockedSection now (timestamps r ip))))"
  by (simp add: checkRateLimit_def lockedSection_def timestamps_def Let_def split: option.splits)

section \<open>The limiter: a burst inside one window\<close>

text \<open>
  C1 fails on the code. \<open>cleanup\<close> unlocks a record that it has found all old (line 94)
  before it deletes the key (line 96), and \<open>checkRateLimit\<close> loads the record (line 55)
  before it locks it (line 58). In \<open>racingCalls\<close> an address is checked at instant 0; the
  sweep at 60 s finds its record old; the check that reads 60 s appends its instant to
  that record; then the sweep deletes the key, and the instant with it. The checks at 61,
  62, 63, 64 and 65 seconds start from a new, empty record: all six checks of the address
  between 60 and 65 seconds, \<open>rateLimitMax + 1\<close> of them in a span of five seconds, are
  allowed, and none is refused. The same checks without the steps of the sweep refuse the
  sixth.
\<close>

theorem burst_slips_through:
  "loadsOf ''10.0.0.1'' (drop 4 racingCalls) =
     [60 * 1000000000, 61 * 1000000000, 62 * 1000000000, 63 * 1000000000, 64 * 1000000000,
      65 * 1000000000] \<and>
   length (loadsOf ''10.0.0.1'' (drop 4 racingCalls)) = rateLimitMax + 1 \<and>
   (65 * 1000000000 - 60 * 1000000000 :: int) < rateLimitWindow \<and>
   verdicts startLimiter racingCalls =
     [(''10.0.0.1'', True), (''10.0.0.1'', True), (''10.0.0.1'', True), (''10.0.0.1'', True),
      (''10.0.0.1'', True), (''10.0.0.1'', True), (''10.0.0.1'', True)] \<and>
   verdicts startLimiter (filter (\<lambda>c. \<not> ofCleanup c) racingCalls) =
     [(''10.0.0.1'', True), (''10.0.0.1'', True), (''10.0.0.1'', True), (''10.0.0.1'', True),
      (''10.0.0.1'', True), (''10.0.0.1'', True), (''10.0.0.1'', False)]"
proof -
  have a: "loadsOf ''10.0.0.1'' (drop 4 racingCalls) =
     [60 * 1000000000, 61 * 1000000000, 62 * 1000000000, 63 * 1000000000, 64 * 1000000000,
      65 * 1000000000]"
    by (simp add: racingCalls_def second_def)
  have b: "length (loadsOf ''10.0.0.1'' (drop 4 racingCalls)) = rateLimitMax + 1"
    unfolding a by (simp add: rateLimitMax_def)
  have c: "(65 * 1000000000 - 60 * 1000000000 :: int) < rateLimitWindow"
    by (simp add: rateLimitWindow_def second_def)
  have d: "verdicts startLimiter racingCalls =
     [(''10.0.0.1'', True), (''10.0.0.1'', True), (''10.0.0.1'', True), (''10.0.0.1'', True),
      (''10.0.0.1'', True), (''10.0.0.1'', True), (''10.0.0.1'', True)]"
    by code_simp
  have e: "verdicts startLimiter (filter (\<lambda>c. \<not> ofCleanup c) racingCalls) =
     [(''10.0.0.1'', True), (''10.0.0.1'', True), (''10.0.0.1'', True), (''10.0.0.1'', True),
      (''10.0.0.1'', True), (''10.0.0.1'', True), (''10.0.0.1'', False)]"
    by code_simp
  from a b c d e show ?thesis by blast
qed

section \<open>The limiter: attempts far apart\<close>

text \<open>
  The steps of the cleanup goroutine add nothing to a record, and between the two halves
  of a check of an address no other check runs; so a check that comes more than a window
  after the one before finds nothing to keep, in the record of the map or in a record that
  has been deleted from it.
\<close>

lemma separate_start: "separate startLimiter"
  by (simp add: separate_def startLimiter_def)

lemma settled_start: "settled ip None startLimiter"
  by (simp add: settled_def startLimiter_def)

lemma separate_step:
  assumes "separate l" "limiterStep c l = Some (v, l')"
  shows "separate l'"
proof (cases c)
  case (Load ip now)
  with assms show ?thesis
    by (auto simp: separate_def LoadOrStore_def split: if_splits option.splits)
       (meson less_SucI less_irrefl)+
next
  case Locked
  with assms show ?thesis
    by (auto simp: separate_def split: if_splits option.splits prod.splits)
next
  case (Sweep now)
  with assms show ?thesis by (auto simp: separate_def split: if_splits)
next
  case (Visit key)
  with assms show ?thesis by (auto simp: separate_def split: if_splits option.splits)
next
  case Delete
  with assms show ?thesis by (auto simp: separate_def split: if_splits option.splits)
qed

lemma settled_later:
  assumes "settled ip prev l" "case prev of None \<Rightarrow> True | Some t \<Rightarrow> t \<le> now"
  shows "settled ip (Some now) l"
  using assms by (cases prev) (auto simp: settled_def; fastforce)+

lemma lockedSection_old:
  assumes "\<forall>x \<in> set ts. x + rateLimitWindow < now"
  shows "lockedSection now ts = (True, [now])"
proof -
  have "filter (\<lambda>t. After t (now - rateLimitWindow)) ts = []"
    using assms by (auto simp: filter_empty_conv After_def)
  then show ?thesis by (simp add: lockedSection_def rateLimitMax_def)
qed

lemma settled_step:
  assumes sep: "separate l" and inv: "settled ip prev l"
      and st: "limiterStep c l = Some (v, l')"
      and sp: "\<And>now. c = Load ip now \<Longrightarrow> (case prev of None \<Rightarrow> True | Some t \<Rightarrow> t + rateLimitWindow < now)"
  shows "settled ip (case c of Load k now \<Rightarrow> if k = ip then Some now else prev | _ \<Rightarrow> prev) l' \<and>
         v \<noteq> Some (ip, False)"
proof (cases c)
  case (Load k now)
  show ?thesis
  proof (cases "k = ip")
    case True
    from sp [of now] Load True
    have late: "case prev of None \<Rightarrow> True | Some t \<Rightarrow> t + rateLimitWindow < now" by simp
    have pos: "0 < rateLimitWindow" by (simp add: rateLimitWindow_def second_def)
    from inv late pos st Load True show ?thesis
      by (cases prev)
         (auto simp: settled_def LoadOrStore_def split: if_splits option.splits; fastforce)+
  next
    case False
    from sep have below: "\<And>q. connections l ip = Some q \<Longrightarrow> q < fresh l"
      by (auto simp: separate_def)
    from inv st Load False below show ?thesis
      by (auto simp: settled_def LoadOrStore_def split: if_splits option.splits)
  qed
next
  case Locked
  from st Locked obtain k now p where ld: "loaded l = Some (k, now, p)"
    by (auto split: option.splits)
  obtain ok ts where ls: "lockedSection now (infos l p) = (ok, ts)"
    by (cases "lockedSection now (infos l p)")
  from st Locked ld ls have v: "v = Some (k, ok)"
    and l': "l' = l\<lparr>infos := (infos l)(p := ts), loaded := None\<rparr>" by auto
  show ?thesis
  proof (cases "k = ip")
    case True
    from inv ld True obtain t where t: "prev = Some t" "now \<le> t"
      and old: "\<forall>x \<in> set (infos l p). x + rateLimitWindow < now"
      by (cases prev) (auto simp: settled_def)
    from lockedSection_old [OF old] ls have "ok" "ts = [now]" by simp_all
    with inv t v l' Locked True show ?thesis by (auto simp: settled_def)
  next
    case False
    from sep ld False have "connections l ip \<noteq> Some p" by (auto simp: separate_def)
    with inv v l' Locked False show ?thesis by (cases prev; auto simp: settled_def)
  qed
next
  case (Sweep now)
  with inv st show ?thesis by (cases prev; auto simp: settled_def split: if_splits)
next
  case (Visit key)
  with inv st show ?thesis
    by (cases prev; auto simp: settled_def split: if_splits option.splits)
next
  case Delete
  with inv st show ?thesis
    by (cases prev; auto simp: settled_def split: if_splits option.splits)
qed

lemma spaced_allowed:
  assumes "spacedFrom ip prev cs" "separate l" "settled ip prev l"
  shows "(ip, False) \<notin> set (verdicts l cs)"
  using assms
proof (induction cs arbitrary: l prev)
  case Nil
  then show ?case by simp
next
  case (Cons c cs)
  let ?prev = "case c of Load k now \<Rightarrow> if k = ip then Some now else prev | _ \<Rightarrow> prev"
  have sp: "spacedFrom ip ?prev cs"
    using Cons.prems(1) by (cases c) (auto split: if_splits)
  have late: "\<And>now. c = Load ip now \<Longrightarrow>
                (case prev of None \<Rightarrow> True | Some t \<Rightarrow> t + rateLimitWindow < now)"
    using Cons.prems(1) by auto
  show ?case
  proof (cases "limiterStep c l")
    case None
    have "settled ip ?prev l"
    proof (cases c)
      case (Load k now)
      show ?thesis
      proof (cases "k = ip")
        case True
        from late [of now] Load True
        have "case prev of None \<Rightarrow> True | Some t \<Rightarrow> t \<le> now"
          by (cases prev) (auto simp: rateLimitWindow_def second_def)
        from settled_later [OF Cons.prems(3) this] Load True show ?thesis by simp
      next
        case False
        with Load Cons.prems(3) show ?thesis by simp
      qed
    qed (use Cons.prems(3) in simp_all)
    from Cons.IH [OF sp Cons.prems(2) this] None show ?thesis by simp
  next
    case (Some r)
    obtain v l' where r: "r = (v, l')" by (cases r)
    from settled_step [OF Cons.prems(2,3) Some [unfolded r] late]
    have inv': "settled ip ?prev l'" and ok: "v \<noteq> Some (ip, False)" by simp_all
    from Cons.IH [OF sp separate_step [OF Cons.prems(2) Some [unfolded r]] inv'] ok Some r
    show ?thesis by (cases v) auto
  qed
qed

text \<open>
  C7. From the start of the process, checks of one address that each come more than
  \<open>rateLimitWindow\<close> after the check of that address before them are all allowed,
  whatever checks of other addresses happen in between and however the steps of the
  cleanup goroutine fall between and into the checks.
\<close>

theorem spaced_attempts_allowed:
  assumes "spacedFrom ip None cs"
  shows "(ip, False) \<notin> set (verdicts startLimiter cs)"
  using spaced_allowed [OF assms separate_start settled_start] .


theorem spaced_attempts_allowed_witness:
  "spacedFrom ''10.0.0.1'' None spacedCalls \<and>
   (''10.0.0.1'', False) \<notin> set (verdicts startLimiter spacedCalls) \<and>
   verdicts startLimiter spacedCalls =
     [(''10.0.0.1'', True), (''10.0.0.2'', True), (''10.0.0.1'', True), (''10.0.0.2'', True),
      (''10.0.0.1'', True), (''10.0.0.1'', True)]"
proof -
  have h: "spacedFrom ''10.0.0.1'' None spacedCalls"
    by (simp add: spacedCalls_def rateLimitWindow_def second_def)
  have v: "verdicts startLimiter spacedCalls =
     [(''10.0.0.1'', True), (''10.0.0.2'', True), (''10.0.0.1'', True), (''10.0.0.2'', True),
      (''10.0.0.1'', True), (''10.0.0.1'', True)]"
    by code_simp
  from spaced_attempts_allowed [OF h] h v show ?thesis by blast
qed

section \<open>The limiter: the edge of the window\<close>

text \<open>
  C5, as stated, fails: a timestamp equal to the start of the window is dropped. Five
  attempts at instant 0 leave room for an attempt exactly one window later, whose record
  then holds this attempt alone.
\<close>

theorem boundary_timestamp_dropped:
  "(0::int) = 10 * second - rateLimitWindow \<and>
   checkRateLimit (10 * second) ''10.0.0.1'' (Map.empty(''10.0.0.1'' \<mapsto> [0, 0, 0, 0, 0])) =
     (True, Map.empty(''10.0.0.1'' \<mapsto> [10 * second]))"
  by (simp add: second_def rateLimitWindow_def checkRateLimit_def After_def rateLimitMax_def
      Let_def)

text \<open>
  C5, amended. The compaction keeps exactly the timestamps strictly later than
  \<open>now - rateLimitWindow\<close>, so one equal to the start of the window is dropped; the
  attempt is allowed exactly when fewer than \<open>rateLimitMax\<close> are kept, and only then is
  \<open>now\<close> recorded.
\<close>

theorem window_is_exclusive:
  "fst (checkRateLimit now ip r) =
     (length (filter (\<lambda>t. now - rateLimitWindow < t) (timestamps r ip)) < rateLimitMax) \<and>
   timestamps (snd (checkRateLimit now ip r)) ip =
     filter (\<lambda>t. now - rateLimitWindow < t) (timestamps r ip) @
     (if fst (checkRateLimit now ip r) then [now] else []) \<and>
   now - rateLimitWindow \<notin> set (timestamps (snd (checkRateLimit now ip r)) ip)"
  by (auto simp add: timestamps_check_same fst_check After_def Let_def rateLimitWindow_def
      second_def)

section \<open>The parse of a selection\<close>






























section \<open>The commands of a session\<close>









section \<open>A selection followed by other characters\<close>




section \<open>The scanner and the size of a line\<close>




























section \<open>The invariants of the server\<close>

lemma filter_update_length:
  "i < length xs \<Longrightarrow>
     length (filter P (xs[i := y])) + (if P (xs ! i) then 1 else 0) =
     length (filter P xs) + (if P y then 1 else 0)"
proof (induction xs arbitrary: i)
  case Nil
  then show ?case by simp
next
  case (Cons x xs)
  then show ?case by (cases i) auto
qed

lemma isWrite_simps [simp]:
  "isWrite (Write m)" "isWrite (Failed m)" "\<not> isWrite Close" "\<not> isWrite Recv"
  "\<not> isWrite (AddActive d)"
  by (simp_all add: isWrite_def)

lemma isWrite_send [simp]: "isWrite (send c m)"
  by (simp add: send_def)

lemma sessionLoop_writes: "list_all isWrite (sessionLoop s c)"
proof (induction s c rule: sessionLoop.induct)
  case (1 s c)
  obtain tok s' c' where sc: "Scan (elapsed c + readTimeout) s c = (tok, s', c')"
    by (cases "Scan (elapsed c + readTimeout) s c") auto
  show ?case
  proof (cases tok)
    case None
    with sc show ?thesis by (subst sessionLoop.simps) simp
  next
    case (Some input)
    show ?thesis
    proof (cases "input = ''q'' \<or> input = ''quit'' \<or> input = ''exit''")
      case True
      with sc Some show ?thesis by (subst sessionLoop.simps) auto
    next
      case False
      with "1.IH" [of tok "(s', c')" input s' c'] sc Some
      have "list_all isWrite (sessionLoop s' c')" by simp
      with sc Some False show ?thesis
        by (subst sessionLoop.simps) (auto simp: list_all_iff)
    qed
  qed
qed

lemma handler_writes:
  "\<exists>ws. list_all isWrite ws \<and> handleConnection arriving = ws @ [Close, Recv, AddActive (- 1)]"
proof -
  have "list_all isWrite (map (send (accepted arriving)) greeting @
                           sessionLoop newScanner (accepted arriving))"
    using sessionLoop_writes [of newScanner "accepted arriving"] by (auto simp: list_all_iff)
  then show ?thesis unfolding handleConnection_def by (metis append_assoc)
qed

lemma dropWhile_writes: "list_all isWrite ws \<Longrightarrow> dropWhile isWrite (ws @ e # es) = (if isWrite e then dropWhile isWrite es else e # es)"
  by (induction ws) auto

lemma orderly_handler: "orderly (handleConnection conn)"
proof -
  from handler_writes obtain ws where "list_all isWrite ws"
    "handleConnection conn = ws @ [Close, Recv, AddActive (- 1)]" by blast
  then show ?thesis by (simp add: orderly_def dropWhile_writes)
qed

lemma holdsSlot_handler: "holdsSlot (handleConnection conn)"
  by (simp add: holdsSlot_def handleConnection_def)

lemma counted_handler: "counted (handleConnection conn)"
  by (simp add: counted_def handleConnection_def)

lemma handleConnection_silence:
  "handleConnection [] = map Write greeting @ [Close, Recv, AddActive (- 1)]"
  by code_simp

lemma serving_members:
  assumes "dropWhile isWrite h = [Close, Recv, AddActive (- 1)]"
  shows "Recv \<in> set h" "AddActive (- 1) \<in> set h" "h \<noteq> []" "h \<noteq> [AddActive (- 1)]"
proof -
  have "Recv \<in> set (dropWhile isWrite h)" "AddActive (- 1) \<in> set (dropWhile isWrite h)"
    using assms by simp_all
  then show "Recv \<in> set h" "AddActive (- 1) \<in> set h"
    by (auto dest: set_dropWhileD)
  show "h \<noteq> []" "h \<noteq> [AddActive (- 1)]" using assms by auto
qed

lemma orderly_holdsSlot:
  "orderly h \<Longrightarrow> holdsSlot h = (h \<noteq> [] \<and> h \<noteq> [AddActive (- 1)])"
  unfolding orderly_def holdsSlot_def
  by (auto dest: serving_members)

lemma orderly_counted: "orderly h \<Longrightarrow> counted h = (h \<noteq> [])"
  unfolding orderly_def counted_def
  by (auto dest: serving_members)

lemma orderly_step:
  assumes "orderly (e # es)"
  shows "orderly es"
    and "e = Recv \<Longrightarrow> es = [AddActive (- 1)]"
    and "(\<exists>d. e = AddActive d) \<Longrightarrow> e = AddActive (- 1) \<and> es = []"
    and "e \<noteq> Recv \<Longrightarrow> (\<forall>d. e \<noteq> AddActive d) \<Longrightarrow> es \<noteq> [] \<and> es \<noteq> [AddActive (- 1)]"
  using assms unfolding orderly_def by (cases e; auto split: if_splits)+

lemma list_all_update: "list_all P xs \<Longrightarrow> P y \<Longrightarrow> list_all P (xs[i := y])"
  by (auto simp: list_all_iff dest: set_update_subset_insert [THEN subsetD])

lemma run_handler_balanced:
  assumes inv: "slotsBalanced s"
      and i: "i < length (handlers s)" and h: "handlers s ! i = e # es"
      and ex: "exec e s = Some s1"
  shows "slotsBalanced (s1\<lparr>handlers := (handlers s)[i := es]\<rparr>)"
proof -
  let ?hs = "handlers s"
  have ord: "orderly (e # es)"
    using inv i h by (auto simp: slotsBalanced_def list_all_length)
  note st = orderly_step [OF ord]
  have all: "list_all orderly (?hs[i := es])"
    using inv st(1) by (simp add: slotsBalanced_def list_all_update)
  have slot_h: "holdsSlot (e # es) = (e \<noteq> AddActive (- 1) \<or> es \<noteq> [])"
    using orderly_holdsSlot [OF ord] by auto
  have cnt_h: "counted (e # es)" using orderly_counted [OF ord] by simp
  have slot_es: "holdsSlot es = (es \<noteq> [] \<and> es \<noteq> [AddActive (- 1)])"
    using orderly_holdsSlot [OF st(1)] .
  have cnt_es: "counted es = (es \<noteq> [])" using orderly_counted [OF st(1)] .
  note fs = filter_update_length [OF i, of holdsSlot es, unfolded h]
  note fc = filter_update_length [OF i, of counted es, unfolded h]
  show ?thesis
  proof (cases e)
    case (Write m)
    with st(4) have "es \<noteq> []" "es \<noteq> [AddActive (- 1)]" by simp_all
    with Write ex inv fs fc slot_h cnt_h slot_es cnt_es all show ?thesis
      by (auto simp: slotsBalanced_def slotOfLoop_def countOfLoop_def activeSessions_def)
  next
    case (Failed m)
    with st(4) have "es \<noteq> []" "es \<noteq> [AddActive (- 1)]" by simp_all
    with Failed ex inv fs fc slot_h cnt_h slot_es cnt_es all show ?thesis
      by (auto simp: slotsBalanced_def slotOfLoop_def countOfLoop_def activeSessions_def)
  next
    case Close
    with st(4) have "es \<noteq> []" "es \<noteq> [AddActive (- 1)]" by simp_all
    with Close ex inv fs fc slot_h cnt_h slot_es cnt_es all show ?thesis
      by (auto simp: slotsBalanced_def slotOfLoop_def countOfLoop_def activeSessions_def)
  next
    case Recv
    with st(2) have "es = [AddActive (- 1)]" by simp
    with Recv ex inv fs fc slot_h cnt_h slot_es cnt_es all show ?thesis
      by (auto simp: slotsBalanced_def slotOfLoop_def countOfLoop_def activeSessions_def
          split: if_splits)
  next
    case (AddActive d)
    with st(3) have "d = - 1" "es = []" by simp_all
    with AddActive ex inv fs fc slot_h cnt_h slot_es cnt_es all show ?thesis
      by (auto simp: slotsBalanced_def slotOfLoop_def countOfLoop_def activeSessions_def)
  qed
qed

lemma step_slotsBalanced:
  assumes "slotsBalanced s" "step a s = Some s'"
  shows "slotsBalanced s'"
proof (cases a)
  case (Run i)
  with assms(2) obtain e es s1 where "i < length (handlers s)" "handlers s ! i = e # es"
    "exec e s = Some s1" "s' = s1\<lparr>handlers := (handlers s)[i := es]\<rparr>"
    by (auto split: if_splits list.splits option.splits)
  with run_handler_balanced [OF assms(1)] show ?thesis by blast
next
  case (Go conn)
  with assms show ?thesis
    by (auto simp: slotsBalanced_def slotOfLoop_def countOfLoop_def activeSessions_def
        orderly_handler holdsSlot_handler counted_handler split: if_splits)
next
  case (Accept ip now)
  with assms show ?thesis
    by (auto simp: slotsBalanced_def slotOfLoop_def countOfLoop_def activeSessions_def
        split: if_splits option.splits prod.splits)
next
  case Check
  with assms show ?thesis
    by (auto simp: slotsBalanced_def slotOfLoop_def countOfLoop_def activeSessions_def
        split: if_splits option.splits prod.splits)
next
  case (Cleanup call)
  with assms show ?thesis
    by (auto simp: slotsBalanced_def slotOfLoop_def countOfLoop_def activeSessions_def
        split: if_splits option.splits prod.splits)
next
  case Poll
  with assms show ?thesis
    by (auto simp: slotsBalanced_def slotOfLoop_def countOfLoop_def activeSessions_def
        split: if_splits pc.splits)
qed (use assms in \<open>auto simp: slotsBalanced_def slotOfLoop_def countOfLoop_def activeSessions_def
        split: if_splits\<close>)

lemma step_shutdownOrdered:
  assumes "shutdownOrdered s" "step a s = Some s'"
  shows "shutdownOrdered s'"
proof (cases a)
  case (Run i)
  with assms(2) obtain e es s1 where e: "exec e s = Some s1"
    "s' = s1\<lparr>handlers := (handlers s)[i := es]\<rparr>"
    by (auto split: if_splits list.splits option.splits)
  then have "shutdownOrdered s1" using assms(1)
    by (cases e) (auto simp: shutdownOrdered_def split: if_splits pc.splits)
  with e show ?thesis by (simp add: shutdownOrdered_def split: pc.splits)
next
  case (Accept ip now)
  with assms show ?thesis
    by (auto simp: shutdownOrdered_def split: if_splits option.splits prod.splits pc.splits)
next
  case Check
  with assms show ?thesis
    by (auto simp: shutdownOrdered_def split: if_splits option.splits prod.splits pc.splits)
next
  case (Cleanup call)
  with assms show ?thesis
    by (auto simp: shutdownOrdered_def split: if_splits option.splits prod.splits pc.splits)
qed (use assms in \<open>auto simp: shutdownOrdered_def split: if_splits pc.splits\<close>)

lemma run_invariant:
  assumes "slotsBalanced s" "shutdownOrdered s" "run acts s = Some s'"
  shows "slotsBalanced s' \<and> shutdownOrdered s'"
  using assms
proof (induction acts arbitrary: s)
  case Nil
  then show ?case by simp
next
  case (Cons a acts)
  then obtain s1 where s1: "step a s = Some s1" "run acts s1 = Some s'"
    by (auto split: option.splits)
  from Cons.IH [OF step_slotsBalanced [OF Cons.prems(1) s1(1)]
      step_shutdownOrdered [OF Cons.prems(2) s1(1)] s1(2)]
  show ?case .
qed

lemma initial_invariant: "slotsBalanced initial" "shutdownOrdered initial"
  by (simp_all add: slotsBalanced_def shutdownOrdered_def initial_def slotOfLoop_def
      countOfLoop_def activeSessions_def)

lemma reachable_invariant:
  "run acts initial = Some s \<Longrightarrow> slotsBalanced s \<and> shutdownOrdered s"
  using run_invariant [OF initial_invariant] .

section \<open>The bound on the sessions\<close>

lemma run_append:
  "run (as @ bs) s = (case run as s of None \<Rightarrow> None | Some s' \<Rightarrow> run bs s')"
  by (induction as arbitrary: s) (auto split: option.splits)

lemma admit_run:
  assumes "mainPc s = Accepting" "listening s"
    "limiterStep (Load ip now) (limiter s) = Some (None, l1)"
    "limiterStep Locked l1 = Some (Some (ip, True), l2)"
    "connSemaphore s < maxConnections"
  shows "run [Accept ip now, Check, Select, Count, Go conn] s =
           Some (s\<lparr>limiter := l2,
                   connSemaphore := connSemaphore s + 1, activeConns := activeConns s + 1,
                   handlers := handlers s @ [handleConnection conn]\<rparr>)"
  using assms by simp

lemma limiterAfter_check:
  assumes "now = int n * (11 * second)"
  shows "\<exists>l1. limiterStep (Load ''10.0.0.1'' now) (limiterAfter n) = Some (None, l1) \<and>
              limiterStep Locked l1 = Some (Some (''10.0.0.1'', True), limiterAfter (Suc n))"
proof (cases n)
  case 0
  with assms show ?thesis
    by (simp add: limiterAfter_def startLimiter_def LoadOrStore_def lockedSection_def
        rateLimitMax_def)
next
  case (Suc m)
  with assms show ?thesis
    by (simp add: limiterAfter_def startLimiter_def LoadOrStore_def lockedSection_def
        After_def rateLimitWindow_def rateLimitMax_def second_def algebra_simps)
qed

lemma admitted_next:
  assumes "n < maxConnections"
  shows "run (admitOne n) (admitted n) = Some (admitted (Suc n))"
proof -
  let ?now = "int n * (11 * second)"
  have pre: "mainPc (admitted n) = Accepting" "listening (admitted n)"
    "connSemaphore (admitted n) < maxConnections" "limiter (admitted n) = limiterAfter n"
    using assms by (simp_all add: admitted_def initial_def)
  from limiterAfter_check [OF refl, of n] obtain l1
    where l1: "limiterStep (Load ''10.0.0.1'' ?now) (limiter (admitted n)) = Some (None, l1)"
      and l2: "limiterStep Locked l1 = Some (Some (''10.0.0.1'', True), limiterAfter (Suc n))"
    unfolding pre(4) by blast
  show ?thesis
    unfolding admitOne_def admit_run [OF pre(1,2) l1 l2 pre(3)]
    by (simp add: admitted_def initial_def replicate_append_same)
qed

lemma admitted_run:
  "n \<le> maxConnections \<Longrightarrow> run (concat (map admitOne [0..<n])) initial = Some (admitted n)"
proof (induction n)
  case 0
  show ?case by (simp add: admitted_def initial_def limiterAfter_def)
next
  case (Suc n)
  then have "run (concat (map admitOne [0..<n])) initial = Some (admitted n)" by simp
  moreover have "run (admitOne n) (admitted n) = Some (admitted (Suc n))"
    using Suc.prems by (intro admitted_next) simp
  ultimately show ?case by (simp add: run_append)
qed

lemma fillServer_run: "run fillServer initial = Some fullServer"
proof -
  have a: "run (concat (map admitOne [0..<100])) initial = Some (admitted 100)"
    using admitted_run [of 100] by (simp add: maxConnections_def)
  have pre: "mainPc (admitted 100) = Accepting" "listening (admitted 100)"
    "limiter (admitted 100) = limiterAfter 100"
    by (simp_all add: admitted_def initial_def)
  have "(1100::int) * second = int 100 * (11 * second)" by simp
  from limiterAfter_check [OF this] obtain l1
    where l1: "limiterStep (Load ''10.0.0.1'' (1100 * second)) (limiter (admitted 100)) =
                 Some (None, l1)"
      and l2: "limiterStep Locked l1 = Some (Some (''10.0.0.1'', True), limiterAfter (Suc 100))"
    unfolding pre(3) by blast
  have "run [Accept ''10.0.0.1'' (1100 * second), Check] (admitted 100) = Some fullServer"
    using pre(1,2) l1 l2 by (simp add: fullServer_def eval_nat_numeral)
  with a show ?thesis by (simp add: fillServer_def run_append)
qed

lemma fullServer_sessions: "activeSessions fullServer = 100"
  by (simp add: fullServer_def admitted_def activeSessions_def holdsSlot_handler)

lemma busy_text: "busyMsg = ''Server is busy. Please try again later.'' @ [CHR 0x0A]"
  by (simp add: busyMsg_def newline_def)

text \<open>
  C2. In every state the server reaches, under any schedule of its goroutines, at most
  100 sessions are active; and when that many are, an attempt that has passed the limiter
  and stands at the \<open>select\<close> gets the busy message and is closed, and no handler is
  started.
\<close>

theorem sessions_bounded:
  assumes "run acts initial = Some s"
  shows "activeSessions s \<le> 100 \<and>
         (mainPc s = Selecting \<and> activeSessions s = 100 \<longrightarrow>
            step Select s =
              Some (s\<lparr>mainPc := Accepting,
                      replies := replies s @
                        [[Write (''Server is busy. Please try again later.'' @ [CHR 0x0A]),
                          Close]]\<rparr>))"
proof -
  from reachable_invariant [OF assms] have inv: "slotsBalanced s" by simp
  then have "connSemaphore s = slotOfLoop s + activeSessions s" "connSemaphore s \<le> maxConnections"
    by (simp_all add: slotsBalanced_def)
  then show ?thesis by (auto simp: slotOfLoop_def maxConnections_def busy_text)
qed

theorem sessions_bounded_witness:
  "run fillServer initial = Some fullServer \<and>
   mainPc fullServer = Selecting \<and> activeSessions fullServer = 100 \<and>
   step Select fullServer =
     Some (fullServer\<lparr>mainPc := Accepting,
             replies := [[Write (''Server is busy. Please try again later.'' @ [CHR 0x0A]),
                          Close]]\<rparr>) \<and>
   handlers (fullServer\<lparr>mainPc := Accepting,
               replies := [[Write (''Server is busy. Please try again later.'' @ [CHR 0x0A]),
                            Close]]\<rparr>) =
     handlers fullServer"
proof -
  have pc: "mainPc fullServer = Selecting" by (simp add: fullServer_def)
  have r: "replies fullServer = []" by (simp add: fullServer_def admitted_def initial_def)
  from sessions_bounded [OF fillServer_run] pc fullServer_sessions r fillServer_run
  show ?thesis by simp
qed

section \<open>An attempt turned away for capacity\<close>

lemma tooMany_text:
  "tooManyMsg = ''Too many connections. Please wait and try again.'' @ [CHR 0x0A]"
  by (simp add: tooManyMsg_def newline_def)

lemma racing_attempts:
  assumes "mainPc s = Accepting" "listening s" "connSemaphore s = 100"
    "limiter s = limiterAfter 100"
  shows "run busyAttempts s =
           Some (s\<lparr>limiter :=
                     \<lparr>connections = [''10.0.0.1'' \<mapsto> 0, ''10.0.0.2'' \<mapsto> 2],
                      infos = (\<lambda>p. [])
                        (0 := [1089 * second], 1 := [1200 * second],
                         2 := [1201 * second, 1202 * second, 1203 * second, 1204 * second,
                               1205 * second]),
                      fresh = 3, loaded = None, cutoff = Some (1180 * second),
                      visited = [''10.0.0.2''], doomed = None\<rparr>,
                   replies := replies s @ replicate 7 [Write busyMsg, Close]\<rparr>)"
  using assms
  by (simp add: busyAttempts_def limiterAfter_def startLimiter_def LoadOrStore_def
      lockedSection_def After_def rateLimitWindow_def rateLimitMax_def second_def
      maxConnections_def ofCleanup_def eval_nat_numeral fun_upd_twist)

lemma calm_attempts:
  assumes "mainPc s = Accepting" "listening s" "connSemaphore s = 100"
    "limiter s = limiterAfter 100"
  shows "run calmAttempts s =
           Some (s\<lparr>limiter :=
                     \<lparr>connections = [''10.0.0.1'' \<mapsto> 0, ''10.0.0.2'' \<mapsto> 1],
                      infos = (\<lambda>p. [])
                        (0 := [1089 * second],
                         1 := [1200 * second, 1201 * second, 1202 * second, 1203 * second,
                               1204 * second]),
                      fresh = 2, loaded = None, cutoff = None,
                      visited = [], doomed = None\<rparr>,
                   replies := replies s @ replicate 6 [Write busyMsg, Close] @
                              [[Write tooManyMsg, Close]]\<rparr>)"
  using assms
  by (simp add: calmAttempts_def limiterAfter_def startLimiter_def LoadOrStore_def
      lockedSection_def After_def rateLimitWindow_def rateLimitMax_def second_def
      maxConnections_def ofCleanup_def eval_nat_numeral fun_upd_twist)

text \<open>
  C9 fails on the code. With 100 sessions active, the address \<open>10.0.0.2\<close> attempts once
  and, fifty seconds later, six times within six seconds. The sweep that starts at the
  first of the six finds the record of the address all old and unlocks it (line 94); the
  attempt passes the limiter, which appends its instant to that record (line 76); the
  sweep deletes the key (line 96), and the attempt is turned away as busy. Its instant is
  gone with the key: the five attempts after it pass the limiter as well, and the record
  of the address holds their five instants only. All seven attempts get the busy message
  and none the rate-limit message, and no handler is started. Without the steps of the
  cleanup goroutine the last of the six is refused by the limiter.
\<close>

theorem busy_attempt_forgotten:
  "run (concat (map admitOne [0..<100])) initial = Some (admitted 100) \<and>
   activeSessions (admitted 100) = 100 \<and>
   map_option replies (run busyAttempts (admitted 100)) =
     Some (replicate 7 [Write (''Server is busy. Please try again later.'' @ [CHR 0x0A]),
                        Close]) \<and>
   map_option handlers (run busyAttempts (admitted 100)) = Some (handlers (admitted 100)) \<and>
   map_option (\<lambda>s. recorded (limiter s) ''10.0.0.2'') (run busyAttempts (admitted 100)) =
     Some [1201 * second, 1202 * second, 1203 * second, 1204 * second, 1205 * second] \<and>
   map_option replies (run calmAttempts (admitted 100)) =
     Some (replicate 6 [Write (''Server is busy. Please try again later.'' @ [CHR 0x0A]),
                        Close] @
           [[Write (''Too many connections. Please wait and try again.'' @ [CHR 0x0A]),
             Close]])"
proof -
  have reach: "run (concat (map admitOne [0..<100])) initial = Some (admitted 100)"
    using admitted_run [of 100] by (simp add: maxConnections_def)
  have full: "activeSessions (admitted 100) = 100"
    by (simp add: admitted_def activeSessions_def holdsSlot_handler)
  have pre: "mainPc (admitted 100) = Accepting" "listening (admitted 100)"
    "connSemaphore (admitted 100) = 100" "limiter (admitted 100) = limiterAfter 100"
    "replies (admitted 100) = []"
    by (simp_all add: admitted_def initial_def)
  note a = racing_attempts [OF pre(1-4)]
  note b = calm_attempts [OF pre(1-4)]
  have r1: "map_option replies (run busyAttempts (admitted 100)) =
     Some (replicate 7 [Write (''Server is busy. Please try again later.'' @ [CHR 0x0A]),
                        Close])"
    unfolding a by (simp add: pre(5) busy_text)
  have r2: "map_option handlers (run busyAttempts (admitted 100)) =
              Some (handlers (admitted 100))"
    unfolding a by simp
  have r3: "map_option (\<lambda>s. recorded (limiter s) ''10.0.0.2'') (run busyAttempts (admitted 100)) =
     Some [1201 * second, 1202 * second, 1203 * second, 1204 * second, 1205 * second]"
    unfolding a by (simp add: recorded_def)
  have r4: "map_option replies (run calmAttempts (admitted 100)) =
     Some (replicate 6 [Write (''Server is busy. Please try again later.'' @ [CHR 0x0A]),
                        Close] @
           [[Write (''Too many connections. Please wait and try again.'' @ [CHR 0x0A]),
             Close]])"
    unfolding b by (simp add: pre(5) busy_text tooMany_text)
  from reach full r1 r2 r3 r4 show ?thesis by blast
qed

section \<open>Every session frees its slot once\<close>

text \<open>
  A handler whose next step is the receive finds an element in the channel, so no step of
  a handler ever blocks, and a handler that is scheduled to its end gives back the slot
  and the count it holds.
\<close>

lemma filter_nth_pos: "i < length xs \<Longrightarrow> P (xs ! i) \<Longrightarrow> 0 < length (filter P xs)"
  by (metis filter_empty_conv length_greater_0_conv nth_mem)

lemma release_enabled:
  assumes "slotsBalanced s" "i < length (handlers s)" "handlers s ! i = Recv # es"
  shows "0 < connSemaphore s"
proof -
  have "orderly (Recv # es)"
    using assms by (auto simp: slotsBalanced_def list_all_length)
  then have "holdsSlot (handlers s ! i)" using assms(3) orderly_holdsSlot by auto
  from filter_nth_pos [OF assms(2), of holdsSlot, OF this] assms(1)
  show ?thesis by (simp add: slotsBalanced_def activeSessions_def)
qed

lemma exec_enabled:
  assumes "slotsBalanced s" "i < length (handlers s)" "handlers s ! i = e # es"
  shows "\<exists>s1. exec e s = Some s1 \<and> mainPc s1 = mainPc s \<and>
           connSemaphore s1 + (if e = Recv then 1 else 0) = connSemaphore s \<and>
           activeConns s1 = activeConns s + (case e of AddActive d \<Rightarrow> d | _ \<Rightarrow> 0) \<and>
           handlers s1 = handlers s"
proof (cases e)
  case Recv
  with release_enabled [OF assms(1,2)] assms(3) show ?thesis by auto
qed simp_all

lemma run_handler_to_end:
  assumes "slotsBalanced s" "mainPc s \<noteq> Exited" "i < length (handlers s)" "handlers s ! i = h"
  shows "\<exists>s'. run (replicate (length h) (Run i)) s = Some s' \<and>
           handlers s' = (handlers s)[i := []] \<and>
           connSemaphore s' + (if holdsSlot h then 1 else 0) = connSemaphore s \<and>
           activeConns s' + (if counted h then 1 else 0) = activeConns s \<and>
           mainPc s' = mainPc s"
  using assms
proof (induction h arbitrary: s)
  case Nil
  then have "(handlers s)[i := []] = handlers s" by (metis list_update_id)
  then show ?case by (simp add: holdsSlot_def counted_def)
next
  case (Cons e es)
  have ord: "orderly (e # es)"
    using Cons.prems by (auto simp: slotsBalanced_def list_all_length)
  note st = orderly_step [OF ord]
  from exec_enabled [OF Cons.prems(1,3,4)] obtain s1 where s1: "exec e s = Some s1"
    "mainPc s1 = mainPc s" "connSemaphore s1 + (if e = Recv then 1 else 0) = connSemaphore s"
    "activeConns s1 = activeConns s + (case e of AddActive d \<Rightarrow> d | _ \<Rightarrow> 0)"
    "handlers s1 = handlers s" by blast
  let ?s2 = "s1\<lparr>handlers := (handlers s)[i := es]\<rparr>"
  have stp: "step (Run i) s = Some ?s2"
    using Cons.prems(2,3,4) s1(1) by simp
  have inv2: "slotsBalanced ?s2" using step_slotsBalanced [OF Cons.prems(1) stp] .
  have pre2: "mainPc ?s2 \<noteq> Exited" "i < length (handlers ?s2)" "handlers ?s2 ! i = es"
    using Cons.prems(2,3) s1(2) by simp_all
  from Cons.IH [OF inv2 pre2] obtain s' where s': "run (replicate (length es) (Run i)) ?s2 = Some s'"
    "handlers s' = (handlers ?s2)[i := []]"
    "connSemaphore s' + (if holdsSlot es then 1 else 0) = connSemaphore ?s2"
    "activeConns s' + (if counted es then 1 else 0) = activeConns ?s2"
    "mainPc s' = mainPc ?s2" by blast
  have slot: "(if holdsSlot (e # es) then 1 else 0) =
                (if holdsSlot es then 1 else 0) + (if e = Recv then 1 else (0::nat))"
    using orderly_holdsSlot [OF ord] orderly_holdsSlot [OF st(1)] st(2,3,4)
    by (cases e) auto
  have cnt: "(if counted (e # es) then 1 else 0) =
               (if counted es then 1 else 0) - (case e of AddActive d \<Rightarrow> d | _ \<Rightarrow> (0::int))"
    using orderly_counted [OF ord] orderly_counted [OF st(1)] st(2,3,4)
    by (cases e) auto
  have "run (replicate (length (e # es)) (Run i)) s = Some s'"
    using stp s'(1) by simp
  moreover have "handlers s' = (handlers s)[i := []]" using s'(2) by simp
  moreover have "connSemaphore s' + (if holdsSlot (e # es) then 1 else 0) = connSemaphore s"
    using s'(3) s1(3) slot by simp
  moreover have "activeConns s' + (if counted (e # es) then 1 else 0) = activeConns s"
    using s'(4) s1(4) cnt by simp
  moreover have "mainPc s' = mainPc s" using s'(5) s1(2) by simp
  ultimately show ?case by blast
qed

lemma run_slotsBalanced:
  "slotsBalanced s \<Longrightarrow> run acts s = Some s' \<Longrightarrow> slotsBalanced s'"
proof (induction acts arbitrary: s)
  case Nil
  then show ?case by simp
next
  case (Cons a acts)
  then obtain s1 where "step a s = Some s1" "run acts s1 = Some s'"
    by (auto split: option.splits)
  with Cons.IH step_slotsBalanced [OF Cons.prems(1)] show ?case by blast
qed

lemma handler_effects:
  "filter (\<lambda>e. \<not> isWrite e) (handleConnection conn) = [Close, Recv, AddActive (- 1)]"
proof -
  from handler_writes obtain ws where ws: "list_all isWrite ws"
    "handleConnection conn = ws @ [Close, Recv, AddActive (- 1)]" by blast
  from ws(1) have "filter (\<lambda>e. \<not> isWrite e) ws = []"
    by (simp add: filter_empty_conv list_all_iff)
  with ws(2) show ?thesis by simp
qed

lemma session_restores:
  assumes inv: "slotsBalanced s" and pc: "mainPc s = Selecting"
      and room: "connSemaphore s < maxConnections"
  shows "\<exists>s'. run ([Select, Count, Go conn] @
                   replicate (length (handleConnection conn)) (Run (length (handlers s)))) s =
                Some s' \<and>
              connSemaphore s' = connSemaphore s \<and> activeConns s' = activeConns s \<and>
              handlers s' = handlers s @ [[]]"
proof -
  let ?h = "handleConnection conn"
  let ?s1 = "s\<lparr>connSemaphore := connSemaphore s + 1, activeConns := activeConns s + 1,
               mainPc := Accepting, handlers := handlers s @ [?h]\<rparr>"
  have r1: "run [Select, Count, Go conn] s = Some ?s1" using pc room by simp
  have inv1: "slotsBalanced ?s1" using run_slotsBalanced [OF inv r1] .
  have pre: "mainPc ?s1 \<noteq> Exited" "length (handlers s) < length (handlers ?s1)"
    "handlers ?s1 ! length (handlers s) = ?h" by simp_all
  from run_handler_to_end [OF inv1 pre] obtain s' where s':
    "run (replicate (length ?h) (Run (length (handlers s)))) ?s1 = Some s'"
    "handlers s' = (handlers ?s1)[length (handlers s) := []]"
    "connSemaphore s' + (if holdsSlot ?h then 1 else 0) = connSemaphore ?s1"
    "activeConns s' + (if counted ?h then 1 else 0) = activeConns ?s1" by blast
  have "run ([Select, Count, Go conn] @ replicate (length ?h) (Run (length (handlers s)))) s =
          Some s'"
    using r1 s'(1) by (simp only: run_append option.case)
  moreover have "connSemaphore s' = connSemaphore s" "activeConns s' = activeConns s"
    using s'(3,4) by (simp_all add: holdsSlot_handler counted_handler)
  moreover have "handlers s' = handlers s @ [[]]" using s'(2) by simp
  ultimately show ?thesis by blast
qed

lemma counted_filter:
  assumes "list_all orderly hs"
  shows "filter counted hs = filter (\<lambda>h. h \<noteq> []) hs"
  using assms by (intro filter_cong) (auto simp: list_all_iff orderly_counted)

text \<open>
  C3. Whatever a connection delivers (a quit command, a deadline that passes, a line that
  is too long, a reset), the handler, apart from its writes, closes the connection,
  receives once from \<open>connSemaphore\<close> and subtracts one from \<open>activeConns\<close>, in this order
  and nothing else. In every state the server reaches, the semaphore holds exactly one
  element per session that has not freed its slot, plus the one of the accept loop between
  \<open>select\<close> and \<open>go\<close>; the counter counts exactly the handlers that have not finished;
  a receive that is due never finds the channel empty; and a session that is admitted and
  runs to its end leaves the semaphore and the counter as it found them.
\<close>

theorem slot_released_once:
  assumes "run acts initial = Some s"
  shows "filter (\<lambda>e. \<not> isWrite e) (handleConnection conn) = [Close, Recv, AddActive (- 1)] \<and>
         connSemaphore s = slotOfLoop s + activeSessions s \<and>
         activeConns s = countOfLoop s + int (length (filter (\<lambda>h. h \<noteq> []) (handlers s))) \<and>
         (i < length (handlers s) \<and> handlers s ! i = Recv # es \<longrightarrow> 0 < connSemaphore s) \<and>
         (mainPc s = Selecting \<and> connSemaphore s < maxConnections \<longrightarrow>
            (\<exists>s'. run ([Select, Count, Go conn] @
                       replicate (length (handleConnection conn)) (Run (length (handlers s)))) s =
                    Some s' \<and>
                  connSemaphore s' = connSemaphore s \<and> activeConns s' = activeConns s \<and>
                  handlers s' = handlers s @ [[]]))"
proof -
  from reachable_invariant [OF assms] have inv: "slotsBalanced s" by simp
  have a: "connSemaphore s = slotOfLoop s + activeSessions s"
    using inv by (simp add: slotsBalanced_def)
  have b: "activeConns s = countOfLoop s + int (length (filter (\<lambda>h. h \<noteq> []) (handlers s)))"
    using inv counted_filter [of "handlers s"] by (simp add: slotsBalanced_def)
  have c: "i < length (handlers s) \<and> handlers s ! i = Recv # es \<longrightarrow> 0 < connSemaphore s"
    using release_enabled [OF inv] by blast
  have d: "mainPc s = Selecting \<and> connSemaphore s < maxConnections \<longrightarrow>
            (\<exists>s'. run ([Select, Count, Go conn] @
                       replicate (length (handleConnection conn)) (Run (length (handlers s)))) s =
                    Some s' \<and>
                  connSemaphore s' = connSemaphore s \<and> activeConns s' = activeConns s \<and>
                  handlers s' = handlers s @ [[]])"
    using session_restores [OF inv] by blast
  from handler_effects a b c d show ?thesis by blast
qed

theorem slot_released_once_witness:
  "run [Accept ''10.0.0.1'' 0, Check] initial = Some oneWaiting \<and>
   mainPc oneWaiting = Selecting \<and> connSemaphore oneWaiting < maxConnections \<and>
   (\<exists>s'. run ([Select, Count, Go [Data 0 (''q'' @ [newline])]] @
              replicate (length (handleConnection [Data 0 (''q'' @ [newline])]))
                (Run (length (handlers oneWaiting)))) oneWaiting = Some s' \<and>
         connSemaphore s' = connSemaphore oneWaiting \<and>
         activeConns s' = activeConns oneWaiting \<and>
         handlers s' = handlers oneWaiting @ [[]]) \<and>
   filter (\<lambda>e. \<not> isWrite e) (handleConnection [Data 0 (''q'' @ [newline])]) =
     [Close, Recv, AddActive (- 1)] \<and>
   filter (\<lambda>e. \<not> isWrite e) (handleConnection []) = [Close, Recv, AddActive (- 1)] \<and>
   filter (\<lambda>e. \<not> isWrite e) (handleConnection [Data 0 (longLine @ [newline])]) =
     [Close, Recv, AddActive (- 1)] \<and>
   filter (\<lambda>e. \<not> isWrite e) (handleConnection [Data 0 ''3'', Fail 0 Reset]) =
     [Close, Recv, AddActive (- 1)] \<and>
   run releasing initial = Some releasingState \<and>
   0 < length (handlers releasingState) \<and> handlers releasingState ! 0 = Recv # [AddActive (- 1)] \<and>
   0 < connSemaphore releasingState"
proof -
  from limiterAfter_check [of 0 0] obtain l1
    where l1: "limiterStep (Load ''10.0.0.1'' 0) startLimiter = Some (None, l1)"
      and l2: "limiterStep Locked l1 = Some (Some (''10.0.0.1'', True), limiterAfter 1)"
    by (auto simp: limiterAfter_def)
  have r: "run [Accept ''10.0.0.1'' 0, Check] initial = Some oneWaiting"
    using l1 l2 by (simp add: oneWaiting_def initial_def)
  have p: "mainPc oneWaiting = Selecting" "connSemaphore oneWaiting < maxConnections"
    "handlers oneWaiting = []"
    by (simp_all add: oneWaiting_def initial_def maxConnections_def)
  have g: "length greeting + 1 = 9" by (simp add: greeting_def contacts_def)
  have h: "handleConnection [Fail 0 Reset] = map Write greeting @ [Close, Recv, AddActive (- 1)]"
    by code_simp
  have "run [Accept ''10.0.0.1'' 0, Check, Select, Count, Go [Fail 0 Reset]] initial =
          Some (initial\<lparr>limiter := limiterAfter 1, connSemaphore := 1, activeConns := 1,
                         handlers := [handleConnection [Fail 0 Reset]]\<rparr>)"
    using l1 l2 by (simp add: initial_def maxConnections_def)
  moreover have "run (replicate 9 (Run 0))
                   (initial\<lparr>limiter := limiterAfter 1, connSemaphore := 1, activeConns := 1,
                            handlers := [handleConnection [Fail 0 Reset]]\<rparr>) =
                 Some releasingState"
    unfolding h
    by (simp add: initial_def releasingState_def greeting_def contacts_def eval_nat_numeral)
  ultimately have rr: "run releasing initial = Some releasingState"
    unfolding releasing_def g by (simp only: run_append option.case)
  have q: "0 < length (handlers releasingState)"
    "handlers releasingState ! 0 = Recv # [AddActive (- 1)]"
    by (simp_all add: releasingState_def)
  note t1 = slot_released_once [OF r, of "[Data 0 (''q'' @ [newline])]"]
  note t2 = slot_released_once [OF r, of "[]"]
  note t3 = slot_released_once [OF r, of "[Data 0 (longLine @ [newline])]"]
  note t4 = slot_released_once [OF r, of "[Data 0 ''3'', Fail 0 Reset]"]
  note t5 = slot_released_once [OF rr, of _ 0 "[AddActive (- 1)]"]
  from t1 p(1,2)
  have e1: "\<exists>s'. run ([Select, Count, Go [Data 0 (''q'' @ [newline])]] @
              replicate (length (handleConnection [Data 0 (''q'' @ [newline])]))
                (Run (length (handlers oneWaiting)))) oneWaiting = Some s' \<and>
         connSemaphore s' = connSemaphore oneWaiting \<and>
         activeConns s' = activeConns oneWaiting \<and>
         handlers s' = handlers oneWaiting @ [[]]"
    by blast
  from t1 have f1: "filter (\<lambda>e. \<not> isWrite e) (handleConnection [Data 0 (''q'' @ [newline])]) =
     [Close, Recv, AddActive (- 1)]" by blast
  from t2 have f2: "filter (\<lambda>e. \<not> isWrite e) (handleConnection []) =
     [Close, Recv, AddActive (- 1)]" by blast
  from t3 have f3: "filter (\<lambda>e. \<not> isWrite e) (handleConnection [Data 0 (longLine @ [newline])]) =
     [Close, Recv, AddActive (- 1)]" by blast
  from t4 have f4: "filter (\<lambda>e. \<not> isWrite e) (handleConnection [Data 0 ''3'', Fail 0 Reset]) =
     [Close, Recv, AddActive (- 1)]" by blast
  from t5 q have e5: "0 < connSemaphore releasingState" by blast
  from r p(1,2) e1 f1 f2 f3 f4 rr q e5 show ?thesis by blast
qed

section \<open>The shutdown\<close>

text \<open>
  Once the listener is closed it stays closed and no connection is accepted; every round
  of the drain loop sleeps or leaves, so the rounds are counted by the sleeps.
\<close>

lemma exec_keeps:
  "exec e s = Some s1 \<Longrightarrow>
     listening s1 = listening s \<and> mainPc s1 = mainPc s \<and> slept s1 = slept s"
  by (cases e) (auto split: if_splits)

lemma step_closed:
  assumes "\<not> listening s" "step a s = Some s'"
  shows "\<not> listening s' \<and> \<not> isAccept a"
proof (cases a)
  case (Run i)
  with assms(2) obtain e s1 where "exec e s = Some s1" "listening s' = listening s1"
    by (auto split: if_splits list.splits option.splits)
  with exec_keeps assms(1) Run show ?thesis by (simp add: isAccept_def)
next
  case Poll
  with assms show ?thesis by (auto simp: isAccept_def split: pc.splits if_splits)
next
  case Check
  with assms show ?thesis
    by (auto simp: isAccept_def split: if_splits option.splits prod.splits)
next
  case (Cleanup call)
  with assms show ?thesis
    by (auto simp: isAccept_def split: if_splits option.splits prod.splits)
qed (use assms in \<open>auto simp: isAccept_def split: if_splits\<close>)

lemma run_closed:
  "\<not> listening s \<Longrightarrow> run acts s = Some s' \<Longrightarrow>
     \<not> listening s' \<and> list_all (\<lambda>a. \<not> isAccept a) acts"
proof (induction acts arbitrary: s)
  case Nil
  then show ?case by simp
next
  case (Cons a acts)
  then obtain s1 where s1: "step a s = Some s1" "run acts s1 = Some s'"
    by (auto split: option.splits)
  from step_closed [OF Cons.prems(1) s1(1)] Cons.IH [OF _ s1(2)] show ?case by simp
qed

lemma step_polls:
  assumes "step a s = Some s'"
  shows "(if a = Poll then 1 else 0) + slept s + exited s = slept s' + exited s'"
proof (cases a)
  case (Run i)
  with assms obtain e s1 where "exec e s = Some s1" "mainPc s' = mainPc s1" "slept s' = slept s1"
    by (auto split: if_splits list.splits option.splits)
  with exec_keeps Run show ?thesis by (simp add: exited_def)
next
  case Poll
  with assms show ?thesis by (auto simp: exited_def split: pc.splits if_splits)
next
  case (Accept ip now)
  with assms show ?thesis
    by (auto simp: exited_def split: if_splits option.splits prod.splits)
next
  case Check
  with assms show ?thesis
    by (auto simp: exited_def split: if_splits option.splits prod.splits)
next
  case (Cleanup call)
  with assms show ?thesis
    by (auto simp: exited_def split: if_splits option.splits prod.splits)
qed (use assms in \<open>auto simp: exited_def split: if_splits\<close>)

lemma run_polls:
  "run acts s = Some s' \<Longrightarrow> count_list acts Poll + slept s + exited s = slept s' + exited s'"
proof (induction acts arbitrary: s)
  case Nil
  then show ?case by simp
next
  case (Cons a acts)
  then obtain s1 where s1: "step a s = Some s1" "run acts s1 = Some s'"
    by (auto split: option.splits)
  from step_polls [OF s1(1)] Cons.IH [OF s1(2)] show ?case by auto
qed

lemma slept_bound: "shutdownOrdered s \<Longrightarrow> slept s \<le> 100"
  by (auto simp: shutdownOrdered_def split: pc.splits)

lemma drained_iff:
  assumes "slotsBalanced s" "mainPc s = Draining i"
  shows "(activeConns s = 0) = list_all (\<lambda>h. h = []) (handlers s)"
proof -
  have "activeConns s = int (length (filter (\<lambda>h. h \<noteq> []) (handlers s)))"
    using assms counted_filter [of "handlers s"]
    by (simp add: slotsBalanced_def countOfLoop_def)
  then show ?thesis by (auto simp: list_all_iff filter_empty_conv)
qed

lemma exited_stuck: "mainPc s = Exited \<Longrightarrow> step a s = None"
  by (cases a) auto

lemma signal_closes:
  assumes "run (CloseListener # acts) s = Some s'"
  shows "\<not> listening s' \<and> list_all (\<lambda>a. \<not> isAccept a) acts"
proof -
  from assms obtain s1 where s1: "step CloseListener s = Some s1" "run acts s1 = Some s'"
    by (auto split: option.splits)
  from s1(1) have "\<not> listening s1" by (auto split: if_splits)
  from run_closed [OF this s1(2)] show ?thesis .
qed

text \<open>
  C8. In every state the server reaches: while the listener is open, the signal goroutine
  can close it, whatever the other goroutines are doing, and from that step on no schedule
  accepts a connection any more. The goroutine then cancels the context, never before; the
  accept loop meets a failing \<open>Accept\<close> and turns to the drain loop. Each round of it
  leaves at once when \<open>activeConns\<close> is zero, which means that every handler has finished,
  or when 100 rounds have slept, and sleeps 100 ms otherwise: the loop sleeps at most 100
  times, ten seconds in all, and takes at most 101 rounds. When the loop has left, the
  process is gone and no handler makes another step.
\<close>

theorem shutdown_drains:
  assumes "run acts initial = Some s"
  shows "(listening s \<longrightarrow> step CloseListener s = Some (s\<lparr>listening := False\<rparr>)) \<and>
         (run (CloseListener # acts') s = Some s' \<longrightarrow>
            \<not> listening s' \<and> list_all (\<lambda>a. \<not> isAccept a) acts') \<and>
         (\<not> listening s \<and> run acts' s = Some s' \<longrightarrow>
            \<not> listening s' \<and> list_all (\<lambda>a. \<not> isAccept a) acts') \<and>
         (\<not> listening s \<longrightarrow> step (Accept ip now) s = None) \<and>
         (\<not> listening s \<and> \<not> cancelled s \<longrightarrow> step Cancel s = Some (s\<lparr>cancelled := True\<rparr>)) \<and>
         (cancelled s \<longrightarrow> \<not> listening s) \<and>
         (cancelled s \<and> mainPc s = Accepting \<longrightarrow>
            step AcceptErr s = Some (s\<lparr>mainPc := Draining 0\<rparr>)) \<and>
         (mainPc s = Draining i \<longrightarrow>
            slept s = i \<and>
            step Poll s =
              Some (if i < 100 \<and> activeConns s \<noteq> 0
                    then s\<lparr>mainPc := Draining (i + 1), slept := slept s + 1\<rparr>
                    else s\<lparr>mainPc := Exited\<rparr>) \<and>
            (activeConns s = 0) = list_all (\<lambda>h. h = []) (handlers s)) \<and>
         (mainPc s = Exited \<longrightarrow> step a s = None) \<and>
         count_list acts Poll \<le> 101 \<and>
         int (slept s) * (100 * 1000000) \<le> 10 * 1000000000"
proof -
  from reachable_invariant [OF assms]
  have inv: "slotsBalanced s" "shutdownOrdered s" by simp_all
  have alive: "\<not> cancelled s \<longrightarrow> mainPc s \<noteq> Exited"
    using inv(2) by (auto simp: shutdownOrdered_def)
  have open_alive: "listening s \<longrightarrow> mainPc s \<noteq> Exited"
    using inv(2) by (auto simp: shutdownOrdered_def)
  have s1: "listening s \<longrightarrow> step CloseListener s = Some (s\<lparr>listening := False\<rparr>)"
    using open_alive by simp
  have s2: "run (CloseListener # acts') s = Some s' \<longrightarrow>
            \<not> listening s' \<and> list_all (\<lambda>a. \<not> isAccept a) acts'"
    using signal_closes by blast
  have a: "\<not> listening s \<and> run acts' s = Some s' \<longrightarrow>
            \<not> listening s' \<and> list_all (\<lambda>a. \<not> isAccept a) acts'"
    using run_closed by blast
  have b: "\<not> listening s \<longrightarrow> step (Accept ip now) s = None" by simp
  have s3: "\<not> listening s \<and> \<not> cancelled s \<longrightarrow> step Cancel s = Some (s\<lparr>cancelled := True\<rparr>)"
    using alive by simp
  have c: "cancelled s \<longrightarrow> \<not> listening s"
    using inv(2) by (auto simp: shutdownOrdered_def)
  have d: "cancelled s \<and> mainPc s = Accepting \<longrightarrow>
            step AcceptErr s = Some (s\<lparr>mainPc := Draining 0\<rparr>)" by simp
  have e: "mainPc s = Draining i \<longrightarrow>
            slept s = i \<and>
            step Poll s =
              Some (if i < 100 \<and> activeConns s \<noteq> 0
                    then s\<lparr>mainPc := Draining (i + 1), slept := slept s + 1\<rparr>
                    else s\<lparr>mainPc := Exited\<rparr>) \<and>
            (activeConns s = 0) = list_all (\<lambda>h. h = []) (handlers s)"
    using inv(2) drained_iff [OF inv(1)] by (auto simp: shutdownOrdered_def)
  have f: "mainPc s = Exited \<longrightarrow> step a s = None" using exited_stuck by blast
  have sl: "slept s \<le> 100" using slept_bound [OF inv(2)] .
  have "count_list acts Poll + slept initial + exited initial = slept s + exited s"
    using run_polls [OF assms] .
  then have g: "count_list acts Poll \<le> 101"
    using sl by (simp add: initial_def exited_def split: if_splits)
  have h: "int (slept s) * (100 * 1000000) \<le> 10 * 1000000000"
    using sl by simp
  from s1 s2 a b s3 c d e f g h show ?thesis by blast
qed

lemma draining_polls:
  "i + n \<le> 100 \<Longrightarrow> run (replicate n Poll) (draining i) = Some (draining (i + n))"
proof (induction n arbitrary: i)
  case 0
  show ?case by simp
next
  case (Suc n)
  have "step Poll (draining i) = Some (draining (Suc i))"
    using Suc.prems by (simp add: draining_def admitted_def initial_def)
  moreover have "run (replicate n Poll) (draining (Suc i)) = Some (draining (Suc i + n))"
    using Suc.prems by (intro Suc.IH) simp
  ultimately show ?case by simp
qed

lemma signalled_run:
  "run signalled initial = Some ((admitted 1)\<lparr>listening := False\<rparr>)"
proof -
  have "run (concat (map admitOne [0..<1])) initial = Some (admitted 1)"
    using admitted_run [of 1] by (simp add: maxConnections_def)
  moreover have "step CloseListener (admitted 1) = Some ((admitted 1)\<lparr>listening := False\<rparr>)"
    by (simp add: admitted_def initial_def)
  ultimately show ?thesis unfolding signalled_def by (simp only: run_append option.case run.simps)
qed

lemma cancel_run:
  "run [Cancel, AcceptErr] ((admitted 1)\<lparr>listening := False\<rparr>) = Some (draining 0)"
  by (simp add: draining_def admitted_def initial_def)

lemma draining_reached:
  assumes "n \<le> 100"
  shows "run (signalled @ [Cancel, AcceptErr] @ replicate n Poll) initial = Some (draining n)"
  using signalled_run cancel_run draining_polls [of 0 n] assms
  by (simp only: run_append option.case add_0)

lemma last_poll: "step Poll (draining 100) = Some abandoned"
  by (simp add: draining_def abandoned_def admitted_def initial_def)

lemma abandoned_reached:
  "run (signalled @ [Cancel, AcceptErr] @ replicate 100 Poll @ [Poll]) initial = Some abandoned"
proof -
  have "run ((signalled @ [Cancel, AcceptErr] @ replicate 100 Poll) @ [Poll]) initial =
          Some abandoned"
    unfolding run_append [of "signalled @ [Cancel, AcceptErr] @ replicate 100 Poll"]
    using draining_reached [of 100] last_poll by simp
  then show ?thesis by simp
qed

theorem shutdown_drains_witness:
  "run (concat (map admitOne [0..<1])) initial = Some (admitted 1) \<and>
   listening (admitted 1) \<and>
   step CloseListener (admitted 1) = Some ((admitted 1)\<lparr>listening := False\<rparr>) \<and>
   run (CloseListener # [Cancel, AcceptErr, Poll]) (admitted 1) = Some (draining 1) \<and>
   \<not> listening (draining 1) \<and> list_all (\<lambda>a. \<not> isAccept a) [Cancel, AcceptErr, Poll] \<and>
   run signalled initial = Some ((admitted 1)\<lparr>listening := False\<rparr>) \<and>
   \<not> listening ((admitted 1)\<lparr>listening := False\<rparr>) \<and>
   \<not> cancelled ((admitted 1)\<lparr>listening := False\<rparr>) \<and>
   step Cancel ((admitted 1)\<lparr>listening := False\<rparr>) =
     Some ((admitted 1)\<lparr>listening := False, cancelled := True\<rparr>) \<and>
   step (Accept ''10.0.0.9'' (5 * second)) ((admitted 1)\<lparr>listening := False\<rparr>) = None \<and>
   run (signalled @ [Cancel, AcceptErr] @ replicate 100 Poll) initial = Some (draining 100) \<and>
   mainPc (draining 100) = Draining 100 \<and> slept (draining 100) = 100 \<and>
   activeConns (draining 100) = 1 \<and>
   step Poll (draining 100) = Some ((draining 100)\<lparr>mainPc := Exited\<rparr>) \<and>
   run (signalled @ [Cancel, AcceptErr] @ replicate 100 Poll @ [Poll]) initial = Some abandoned \<and>
   mainPc abandoned = Exited \<and> step (Run 0) abandoned = None \<and>
   handlers abandoned = [handleConnection []] \<and>
   int (slept abandoned) * (100 * millisecond) = 10 * second \<and>
   run [CloseListener, Cancel, AcceptErr, Poll] initial = Some idleGone \<and>
   mainPc idleGone = Exited \<and> slept idleGone = 0"
proof -
  let ?closed = "(admitted 1)\<lparr>listening := False\<rparr>"
  have reach: "run (concat (map admitOne [0..<1])) initial = Some (admitted 1)"
    using admitted_run [of 1] by (simp add: maxConnections_def)
  have o: "listening (admitted 1)" by (simp add: admitted_def initial_def)
  have c: "\<not> listening ?closed" "\<not> cancelled ?closed"
    by (simp_all add: admitted_def initial_def)
  have r0: "run (CloseListener # [Cancel, AcceptErr, Poll]) (admitted 1) = Some (draining 1)"
    by (simp add: draining_def admitted_def initial_def)
  note w0 = shutdown_drains [OF reach, where acts' = "[Cancel, AcceptErr, Poll]"
      and s' = "draining 1"]
  from w0 o have a0: "step CloseListener (admitted 1) = Some ?closed" by blast
  from w0 r0
  have a1: "\<not> listening (draining 1) \<and> list_all (\<lambda>a. \<not> isAccept a) [Cancel, AcceptErr, Poll]"
    by blast
  note w1 = shutdown_drains [OF signalled_run, where ip = "''10.0.0.9''" and now = "5 * second"]
  from w1 c have a2: "step (Accept ''10.0.0.9'' (5 * second)) ?closed = None" by blast
  from w1 c
  have a5: "step Cancel ?closed = Some ((admitted 1)\<lparr>listening := False, cancelled := True\<rparr>)"
    by simp
  have pc: "mainPc (draining 100) = Draining 100" "slept (draining 100) = 100"
    "activeConns (draining 100) = 1"
    by (simp_all add: draining_def admitted_def initial_def)
  note w2 = shutdown_drains [OF draining_reached [of 100, OF le_refl], where i = 100]
  from w2 pc
  have a3: "step Poll (draining 100) = Some ((draining 100)\<lparr>mainPc := Exited\<rparr>)"
    by simp
  have ex: "mainPc abandoned = Exited" "handlers abandoned = [handleConnection []]"
    "int (slept abandoned) * (100 * millisecond) = 10 * second"
    by (simp_all add: abandoned_def draining_def admitted_def initial_def millisecond_def
        second_def)
  note w3 = shutdown_drains [OF abandoned_reached, where a = "Run 0"]
  from w3 ex(1) have a4: "step (Run 0) abandoned = None" by blast
  have idle: "run [CloseListener, Cancel, AcceptErr, Poll] initial = Some idleGone"
    "mainPc idleGone = Exited" "slept idleGone = 0"
    by (simp_all add: idleGone_def initial_def)
  from reach o a0 r0 a1 signalled_run c a5 a2 draining_reached [of 100, OF le_refl] pc a3
    abandoned_reached ex a4 idle
  show ?thesis by blast
qed

end
